theory Spec2Isabelle
  imports Main "HOL-Library.AList"
begin

section \<open>Strings as Python sees them\<close>

text \<open>
  The source is \<^verbatim>\<open>src/digital_design_agent.py\<close>. A Python \<^verbatim>\<open>str\<close> is modelled as a HOL
  \<^typ>\<open>string\<close>. The character classes below are those of Python on the ASCII range
  (code points below 128): \<^verbatim>\<open>str.isspace\<close> and the regular expression class \<^verbatim>\<open>\s\<close>
  agree there (tab, line feed, vertical tab, form feed, carriage return, the four
  separators 28 to 31 and the space), \<^verbatim>\<open>\w\<close> is a letter, a digit or the underscore, and
  \<^verbatim>\<open>upper\<close>, \<^verbatim>\<open>lower\<close> and \<^verbatim>\<open>re.IGNORECASE\<close> change the 26 letters only. The embedding
  is of the program on ASCII text.
\<close>

definition is_space :: "char \<Rightarrow> bool" where
  "is_space c = (c \<in> set [CHR 0x09, CHR 0x0A, CHR 0x0B, CHR 0x0C, CHR 0x0D,
                           CHR 0x1C, CHR 0x1D, CHR 0x1E, CHR 0x1F, CHR '' ''])"

definition is_word :: "char \<Rightarrow> bool" where
  "is_word c = (let n = (of_char c :: nat) in
     (48 \<le> n \<and> n \<le> 57) \<or> (65 \<le> n \<and> n \<le> 90) \<or> n = 95 \<or> (97 \<le> n \<and> n \<le> 122))"

definition not_newline :: "char \<Rightarrow> bool" where
  \<comment> \<open>the regular expression \<^verbatim>\<open>.\<close> (without DOTALL)\<close>
  "not_newline c = (c \<noteq> CHR 0x0A)"

definition upper_char :: "char \<Rightarrow> char" where
  "upper_char c = (let n = (of_char c :: nat) in
     if 97 \<le> n \<and> n \<le> 122 then char_of (n - 32) else c)"

definition lower_char :: "char \<Rightarrow> char" where
  "lower_char c = (let n = (of_char c :: nat) in
     if 65 \<le> n \<and> n \<le> 90 then char_of (n + 32) else c)"

definition upper :: "string \<Rightarrow> string" where
  "upper s = map upper_char s"

definition lower :: "string \<Rightarrow> string" where
  "lower s = map lower_char s"

definition strip :: "string \<Rightarrow> string" where
  \<comment> \<open>\<^verbatim>\<open>s.strip()\<close>\<close>
  "strip s = rev (dropWhile is_space (rev (dropWhile is_space s)))"

definition startswith :: "string \<Rightarrow> string \<Rightarrow> bool" where
  \<comment> \<open>\<^verbatim>\<open>s.startswith(p)\<close>\<close>
  "startswith s p = (take (length p) s = p)"

fun contains :: "string \<Rightarrow> string \<Rightarrow> bool" where
  \<comment> \<open>\<^verbatim>\<open>p in s\<close> on two strings\<close>
  "contains p [] = (p = [])"
| "contains p (c # cs) = (startswith (c # cs) p \<or> contains p cs)"

fun split_on :: "char \<Rightarrow> string \<Rightarrow> string list" where
  \<comment> \<open>\<^verbatim>\<open>s.split(sep)\<close> for a separator of one character\<close>
  "split_on sep [] = [[]]"
| "split_on sep (c # cs) =
     (if c = sep then [] # split_on sep cs
      else (case split_on sep cs of
              [] \<Rightarrow> [[c]]
            | w # ws \<Rightarrow> (c # w) # ws))"

fun join :: "string \<Rightarrow> string list \<Rightarrow> string" where
  \<comment> \<open>\<^verbatim>\<open>sep.join(xs)\<close>\<close>
  "join sep [] = []"
| "join sep [x] = x"
| "join sep (x # y # ys) = x @ sep @ join sep (y # ys)"

section \<open>Regular expressions, by backtracking\<close>

text \<open>
  Python's \<^verbatim>\<open>re\<close> matches by backtracking: a greedy quantifier tries its longest
  repetition first, a lazy one its shortest, an optional group is tried before it is
  skipped, and the first path that reaches the end of the pattern is the match. Each
  construct below takes the text still to be read and the continuation that matches the
  rest of the pattern; \<open>None\<close> is a failed path. The quantifiers of the source's
  patterns all stand on a single character class, so the recursion is on the text.
\<close>

definition lit_ci :: "string \<Rightarrow> string \<Rightarrow> (string \<Rightarrow> 'r option) \<Rightarrow> 'r option" where
  \<comment> \<open>a literal under \<^verbatim>\<open>re.IGNORECASE\<close>\<close>
  "lit_ci p s k =
     (if lower (take (length p) s) = lower p then k (drop (length p) s) else None)"

fun star_greedy ::
  "(char \<Rightarrow> bool) \<Rightarrow> string \<Rightarrow> string \<Rightarrow> (string \<Rightarrow> string \<Rightarrow> 'r option) \<Rightarrow> 'r option" where
  \<comment> \<open>\<^verbatim>\<open>X*\<close>: the continuation gets the text matched so far and the rest\<close>
  "star_greedy P acc [] k = k acc []"
| "star_greedy P acc (c # cs) k =
     (if P c then
        (case star_greedy P (acc @ [c]) cs k of
           Some r \<Rightarrow> Some r
         | None \<Rightarrow> k acc (c # cs))
      else k acc (c # cs))"

definition plus_greedy ::
  "(char \<Rightarrow> bool) \<Rightarrow> string \<Rightarrow> (string \<Rightarrow> string \<Rightarrow> 'r option) \<Rightarrow> 'r option" where
  \<comment> \<open>\<^verbatim>\<open>X+\<close>\<close>
  "plus_greedy P s k =
     (case s of
        [] \<Rightarrow> None
      | c # cs \<Rightarrow> if P c then star_greedy P [c] cs k else None)"

fun star_lazy ::
  "(char \<Rightarrow> bool) \<Rightarrow> string \<Rightarrow> string \<Rightarrow> (string \<Rightarrow> string \<Rightarrow> 'r option) \<Rightarrow> 'r option" where
  \<comment> \<open>\<^verbatim>\<open>X*?\<close>\<close>
  "star_lazy P acc [] k = k acc []"
| "star_lazy P acc (c # cs) k =
     (case k acc (c # cs) of
        Some r \<Rightarrow> Some r
      | None \<Rightarrow> if P c then star_lazy P (acc @ [c]) cs k else None)"

fun re_search :: "(string \<Rightarrow> 'r option) \<Rightarrow> string \<Rightarrow> 'r option" where
  \<comment> \<open>\<^verbatim>\<open>re.search\<close>: the match at the leftmost position that has one\<close>
  "re_search m [] = m []"
| "re_search m (c # cs) =
     (case m (c # cs) of
        Some r \<Rightarrow> Some r
      | None \<Rightarrow> re_search m cs)"

subsection \<open>The patterns of the source\<close>

definition to_clause :: "string \<Rightarrow> string option" where
  \<comment> \<open>\<^verbatim>\<open>\s*->\s*TO\((?P<target>\w+)\)\<close>, the end of both transition patterns\<close>
  "to_clause s =
     star_greedy is_space [] s (\<lambda>_ s.
     lit_ci ''->'' s (\<lambda>s.
     star_greedy is_space [] s (\<lambda>_ s.
     lit_ci ''TO('' s (\<lambda>s.
     plus_greedy is_word s (\<lambda>target s.
     lit_ci '')'' s (\<lambda>_. Some target))))))"

definition global_pattern :: "string \<Rightarrow> (string \<times> string option \<times> string) option" where
  \<comment> \<open>\<^verbatim>\<open>ON_EVENT\((?P<event>\w+)\):\s*(DO\((?P<actions>.*?)\))?\s*->\s*TO\((?P<target>\w+)\)\<close>;
      the result is (event, actions, target), a group that took no part being \<open>None\<close>\<close>
  "global_pattern s =
     lit_ci ''ON_EVENT('' s (\<lambda>s.
     plus_greedy is_word s (\<lambda>event s.
     lit_ci ''):'' s (\<lambda>s.
     star_greedy is_space [] s (\<lambda>_ s.
       (case lit_ci ''DO('' s (\<lambda>s.
               star_lazy not_newline [] s (\<lambda>actions s.
               lit_ci '')'' s (\<lambda>s.
               map_option (\<lambda>target. (event, Some actions, target)) (to_clause s)))) of
          Some r \<Rightarrow> Some r
        | None \<Rightarrow> map_option (\<lambda>target. (event, None, target)) (to_clause s))))))"

definition transition_pattern :: "string \<Rightarrow> (string \<times> string option \<times> string) option" where
  \<comment> \<open>\<^verbatim>\<open>ON_EVENT\((?P<event>\w+)\):\s*(IF\s*\((?P<condition>.*?)\))?\s*->\s*TO\((?P<target>\w+)\)\<close>;
      the result is (event, condition, target)\<close>
  "transition_pattern s =
     lit_ci ''ON_EVENT('' s (\<lambda>s.
     plus_greedy is_word s (\<lambda>event s.
     lit_ci ''):'' s (\<lambda>s.
     star_greedy is_space [] s (\<lambda>_ s.
       (case lit_ci ''IF'' s (\<lambda>s.
               star_greedy is_space [] s (\<lambda>_ s.
               lit_ci ''('' s (\<lambda>s.
               star_lazy not_newline [] s (\<lambda>condition s.
               lit_ci '')'' s (\<lambda>s.
               map_option (\<lambda>target. (event, Some condition, target)) (to_clause s)))))) of
          Some r \<Rightarrow> Some r
        | None \<Rightarrow> map_option (\<lambda>target. (event, None, target)) (to_clause s))))))"

definition from_pattern :: "string \<Rightarrow> string option" where
  \<comment> \<open>\<^verbatim>\<open>FROM\((?P<state>\w+)\):\<close>\<close>
  "from_pattern s =
     lit_ci ''FROM('' s (\<lambda>s.
     plus_greedy is_word s (\<lambda>state s.
     lit_ci ''):'' s (\<lambda>_. Some state)))"

definition state_pattern :: "string \<Rightarrow> (string \<times> string option) option" where
  \<comment> \<open>\<^verbatim>\<open>(?P<state>\w+)\s*(\[Output:\s*(?P<outputs>.*?)\])?\<close>; the result is (state, outputs)\<close>
  "state_pattern s =
     plus_greedy is_word s (\<lambda>state s.
     star_greedy is_space [] s (\<lambda>_ s.
       (case lit_ci ''[Output:'' s (\<lambda>s.
               star_greedy is_space [] s (\<lambda>_ s.
               star_lazy not_newline [] s (\<lambda>outputs s.
               lit_ci '']'' s (\<lambda>_. Some (state, Some outputs))))) of
          Some r \<Rightarrow> Some r
        | None \<Rightarrow> Some (state, None))))"

definition directive_pattern :: "string \<Rightarrow> string \<Rightarrow> string option" where
  \<comment> \<open>\<^verbatim>\<open>#\s*KEYWORD:\s*(.*)\<close> for the keywords FEATURE, INTENT and ASSUME; the result is
      group 1\<close>
  "directive_pattern keyword s =
     lit_ci ''#'' s (\<lambda>s.
     star_greedy is_space [] s (\<lambda>_ s.
     lit_ci (keyword @ '':'') s (\<lambda>s.
     star_greedy is_space [] s (\<lambda>_ s.
     star_greedy not_newline [] s (\<lambda>text _. Some text)))))"

section \<open>The data model\<close>

text \<open>
  \<^verbatim>\<open>StateMachine.data\<close> is a dictionary of dictionaries and lists; the records below give
  it the shape the parser builds. A Python dictionary keeps its keys in insertion order,
  and storing to a key it has keeps the key's place: an association list under
  \<^const>\<open>AList.update\<close>. A comment is \<^verbatim>\<open>None\<close> or a string.
\<close>

datatype py_error = AttributeError | TypeError | KeyError

record transition =
  t_event :: string
  t_condition :: string
  t_target :: string
  t_comment :: "string option"

record global_transition =
  g_event :: string
  g_actions :: "string list"
  g_target :: string
  g_comment :: "string option"

record state_record =
  outputs :: "(string \<times> string) list"
  s_comment :: "string option"
  transitions :: "transition list"

record document =
  header :: "(string \<times> string) list"
  assumptions :: "string list"
  global_transitions :: "global_transition list"
  states :: "(string \<times> state_record) list"

definition get_initial_structure :: document where
  "get_initial_structure =
     \<lparr>header = [], assumptions = [], global_transitions = [], states = []\<rparr>"

definition get_all_defined_states :: "document \<Rightarrow> string set" where
  "get_all_defined_states d = set (map fst (states d))"

definition get_all_target_states :: "document \<Rightarrow> string set" where
  "get_all_target_states d =
     (let targets = fold (\<lambda>trans targets. insert (g_target trans) targets)
                      (global_transitions d) {}
      in fold (\<lambda>state_data targets.
                 fold (\<lambda>trans targets. insert (t_target trans) targets)
                   (transitions state_data) targets)
           (map snd (states d)) targets)"

section \<open>The parser\<close>

record parser =
  lines :: "string list"
  sm :: document
  current_section :: "string option"
  current_from_state :: "string option"

definition dsl_parser :: "string \<Rightarrow> document \<Rightarrow> parser" where
  \<comment> \<open>\<^verbatim>\<open>DSLParser.__init__\<close>\<close>
  "dsl_parser dsl_text state_machine =
     \<lparr>lines = split_on CHR 0x0A (strip dsl_text), sm = state_machine,
      current_section = None, current_from_state = None\<rparr>"

definition extract_comment :: "string \<Rightarrow> string option" where
  "extract_comment line =
     (if CHR ''#'' \<in> set line
      then Some (strip (tl (dropWhile (\<lambda>c. c \<noteq> CHR ''#'') line)))
      else None)"

definition parse_header :: "string \<Rightarrow> parser \<Rightarrow> parser" where
  "parse_header line p =
     (let p1 = (case directive_pattern ''FEATURE'' line of
                  None \<Rightarrow> p
                | Some t \<Rightarrow>
                    p\<lparr>sm := (sm p)\<lparr>header :=
                      AList.update ''feature'' (strip t) (header (sm p))\<rparr>\<rparr>);
          p2 = (case directive_pattern ''INTENT'' line of
                  None \<Rightarrow> p1
                | Some t \<Rightarrow>
                    p1\<lparr>sm := (sm p1)\<lparr>header :=
                      AList.update ''intent'' (strip t) (header (sm p1))\<rparr>\<rparr>)
      in (case directive_pattern ''ASSUME'' line of
            None \<Rightarrow> p2
          | Some t \<Rightarrow>
              p2\<lparr>sm := (sm p2)\<lparr>assumptions := assumptions (sm p2) @ [strip t]\<rparr>\<rparr>))"

definition is_section_header :: "string \<Rightarrow> bool" where
  "is_section_header line =
     (let u = upper line
      in startswith u ''GLOBAL_TRANSITIONS:'' \<or> startswith u ''STATE_LIST:''
         \<or> startswith u ''TRANSITIONS:'')"

definition set_section :: "string \<Rightarrow> parser \<Rightarrow> parser" where
  "set_section line p =
     p\<lparr>current_section := Some (hd (split_on CHR '':'' (upper line))),
       current_from_state := None\<rparr>"

definition parse_actions :: "string \<Rightarrow> string list" where
  \<comment> \<open>\<^verbatim>\<open>[a.strip() for a in actions.split(',') if a.strip()]\<close>\<close>
  "parse_actions a = map strip (filter (\<lambda>x. strip x \<noteq> []) (split_on CHR '','' a))"

definition parse_global_transition :: "string \<Rightarrow> parser \<Rightarrow> py_error + parser" where
  \<comment> \<open>\<^verbatim>\<open>groupdict()\<close> holds every named group, \<^verbatim>\<open>None\<close> for one that took no part, so
      the default of \<^verbatim>\<open>data.get('actions', '')\<close> is never used and \<^verbatim>\<open>None.split\<close> raises\<close>
  "parse_global_transition line p =
     (case re_search global_pattern line of
        None \<Rightarrow> Inr p
      | Some (event, actions, target) \<Rightarrow>
          (case actions of
             None \<Rightarrow> Inl AttributeError
           | Some a \<Rightarrow>
               Inr (p\<lparr>sm := (sm p)\<lparr>global_transitions := global_transitions (sm p) @
                      [\<lparr>g_event = upper event, g_actions = parse_actions a,
                        g_target = upper target, g_comment = extract_comment line\<rparr>]\<rparr>\<rparr>)))"

definition parse_outputs :: "string \<Rightarrow> (string \<times> string) list" where
  \<comment> \<open>the loop over \<^verbatim>\<open>data['outputs'].split(',')\<close>\<close>
  "parse_outputs os =
     fold (\<lambda>part outputs_dict.
             (let key_val = split_on CHR ''='' part
              in if length key_val = 2
                 then AList.update (strip (key_val ! 0)) (strip (key_val ! 1)) outputs_dict
                 else outputs_dict))
       (split_on CHR '','' os) []"

definition parse_state_list_item :: "string \<Rightarrow> parser \<Rightarrow> parser" where
  \<comment> \<open>A state's dictionary has the keys outputs, comment and transitions only, and
      \<^verbatim>\<open>update\<close> stores all three: on a new key (after \<^verbatim>\<open>states[state_name] = {}\<close>) and
      on an old one the record below is what the key holds afterwards.\<close>
  "parse_state_list_item line p =
     (case re_search state_pattern line of
        None \<Rightarrow> p
      | Some (state, outs) \<Rightarrow>
          (let state_name = upper state;
               outputs_dict = (case outs of
                                 None \<Rightarrow> []
                               | Some os \<Rightarrow> if os = [] then [] else parse_outputs os)
           in p\<lparr>sm := (sm p)\<lparr>states :=
                AList.update state_name
                  \<lparr>outputs = outputs_dict, s_comment = extract_comment line,
                   transitions = []\<rparr>
                  (states (sm p))\<rparr>\<rparr>))"

definition parse_transitions_item :: "string \<Rightarrow> parser \<Rightarrow> py_error + parser" where
  \<comment> \<open>\<^verbatim>\<open>data.get('condition', 'True')\<close> is \<^verbatim>\<open>None\<close> when the group took no part, and
      \<^verbatim>\<open>None.strip\<close> raises while the transition is built, before the test on the
      source state\<close>
  "parse_transitions_item line p =
     (case from_pattern line of
        Some state \<Rightarrow> Inr (p\<lparr>current_from_state := Some (upper state)\<rparr>)
      | None \<Rightarrow>
          (case current_from_state p of
             None \<Rightarrow> Inr p
           | Some from_state \<Rightarrow>
               if from_state = [] then Inr p
               else
                 (case re_search transition_pattern line of
                    None \<Rightarrow> Inr p
                  | Some (event, condition, target) \<Rightarrow>
                      (case condition of
                         None \<Rightarrow> Inl AttributeError
                       | Some c \<Rightarrow>
                           (let tr = \<lparr>t_event = upper event, t_condition = strip c,
                                      t_target = upper target,
                                      t_comment = extract_comment line\<rparr>
                            in case map_of (states (sm p)) from_state of
                                 None \<Rightarrow> Inr p
                               | Some state_data \<Rightarrow>
                                   Inr (p\<lparr>sm := (sm p)\<lparr>states :=
                                     AList.update from_state
                                       (state_data\<lparr>transitions :=
                                          transitions state_data @ [tr]\<rparr>)
                                       (states (sm p))\<rparr>\<rparr>))))))"

definition parse_line_in_section :: "string \<Rightarrow> parser \<Rightarrow> py_error + parser" where
  "parse_line_in_section line p =
     (if current_section p = Some ''GLOBAL_TRANSITIONS'' then parse_global_transition line p
      else if current_section p = Some ''STATE_LIST'' then Inr (parse_state_list_item line p)
      else if current_section p = Some ''TRANSITIONS'' then parse_transitions_item line p
      else Inr p)"

definition parse_line :: "string \<Rightarrow> parser \<Rightarrow> py_error + parser" where
  \<comment> \<open>the body of the loop of \<^verbatim>\<open>parse\<close>\<close>
  "parse_line raw p =
     (let line = strip raw
      in if line = [] then Inr p
         else if startswith line ''#'' then Inr (parse_header line p)
         else if is_section_header line then Inr (set_section line p)
         else parse_line_in_section line p)"

fun parse_lines :: "string list \<Rightarrow> parser \<Rightarrow> py_error + parser" where
  "parse_lines [] p = Inr p"
| "parse_lines (raw # rest) p =
     (case parse_line raw p of
        Inl e \<Rightarrow> Inl e
      | Inr p' \<Rightarrow> parse_lines rest p')"

definition parse :: "parser \<Rightarrow> py_error + parser" where
  "parse p = parse_lines (lines p) p"

definition parse_text :: "string \<Rightarrow> document \<Rightarrow> py_error + document" where
  \<comment> \<open>\<^verbatim>\<open>DSLParser(dsl_text, state_machine).parse()\<close>, with the document it leaves\<close>
  "parse_text dsl_text state_machine = map_sum id sm (parse (dsl_parser dsl_text state_machine))"

section \<open>The validator\<close>

text \<open>
  \<^verbatim>\<open>get_all_defined_states\<close> and \<^verbatim>\<open>get_all_target_states\<close> return Python sets, whose
  iteration order is fixed by the hashes of their members and no more specified than
  that. The two checks that iterate a set take the order as the function \<open>iter\<close>, which
  lists a set; the theorems about them assume of \<open>iter\<close> only that it lists the set at
  hand, each member once.
\<close>

definition squote :: string where
  "squote = [CHR 0x27]"

definition undefined_state_error :: "string list \<Rightarrow> string" where
  "undefined_state_error names =
     ''Undefined State Error: The following states are used in transitions but not defined in STATE_LIST: ''
     @ join '', '' names @ ''. Please define them.''"

definition potential_deadlock :: "string \<Rightarrow> string" where
  "potential_deadlock state_name =
     ''Potential Deadlock: State '' @ squote @ state_name @ squote
     @ '' is reachable but has no outgoing transitions. Is this an intended final state?''"

definition future_proofing_notice :: "string \<Rightarrow> string \<Rightarrow> string" where
  "future_proofing_notice state comment =
     ''Future-Proofing Notice: The comment for state '' @ squote @ state @ squote
     @ '' ('' @ squote @ comment @ squote
     @ '') mentions future plans. I will keep this in mind for extensibility.''"

definition criticality_notice :: "string \<Rightarrow> string \<Rightarrow> string" where
  "criticality_notice state event =
     ''Criticality Notice: Transition from '' @ squote @ state @ squote
     @ '' on event '' @ squote @ event @ squote
     @ '' is marked as critical. I will prioritize this path.''"

definition check_undefined_states ::
  "(string set \<Rightarrow> string list) \<Rightarrow> document \<Rightarrow> string list \<Rightarrow> string list" where
  "check_undefined_states iter d critiques =
     (let defined_states = get_all_defined_states d;
          target_states = get_all_target_states d;
          undefined_states = target_states - defined_states
      in if undefined_states \<noteq> {}
         then critiques @ [undefined_state_error (iter undefined_states)]
         else critiques)"

definition is_global_target :: "document \<Rightarrow> string \<Rightarrow> bool" where
  "is_global_target d state_name =
     list_ex (\<lambda>t. g_target t = state_name) (global_transitions d)"

definition is_regular_target :: "document \<Rightarrow> string \<Rightarrow> bool" where
  "is_regular_target d state_name =
     list_ex (\<lambda>s. list_ex (\<lambda>t. t_target t = state_name) (transitions s))
       (map snd (states d))"

fun find_deadlocks_loop ::
  "document \<Rightarrow> string list \<Rightarrow> string list \<Rightarrow> py_error + string list" where
  \<comment> \<open>the loop of \<^verbatim>\<open>_find_deadlocks\<close> over the names still to visit\<close>
  "find_deadlocks_loop d [] critiques = Inr critiques"
| "find_deadlocks_loop d (state_name # rest) critiques =
     (case map_of (states d) state_name of
        None \<Rightarrow> Inl KeyError
      | Some state_data \<Rightarrow>
          (let has_outgoing = (transitions state_data \<noteq> [])
           in if \<not> has_outgoing \<and> (is_global_target d state_name \<or> is_regular_target d state_name)
              then find_deadlocks_loop d rest (critiques @ [potential_deadlock state_name])
              else find_deadlocks_loop d rest critiques))"

definition find_deadlocks ::
  "(string set \<Rightarrow> string list) \<Rightarrow> document \<Rightarrow> string list \<Rightarrow> py_error + string list" where
  "find_deadlocks iter d critiques =
     find_deadlocks_loop d (iter (get_all_defined_states d)) critiques"

fun hint_transitions ::
  "string \<Rightarrow> transition list \<Rightarrow> string list \<Rightarrow> py_error + string list" where
  \<comment> \<open>the inner loop of \<^verbatim>\<open>_check_comment_hints\<close>; \<^verbatim>\<open>trans.get('comment', '')\<close> is \<^verbatim>\<open>None\<close>
      for a transition without a comment, and \<^verbatim>\<open>None.lower\<close> raises\<close>
  "hint_transitions state [] critiques = Inr critiques"
| "hint_transitions state (tr # rest) critiques =
     (case t_comment tr of
        None \<Rightarrow> Inl AttributeError
      | Some comment \<Rightarrow>
          hint_transitions state rest
            (if contains ''critical'' (lower comment)
             then critiques @ [criticality_notice state (t_event tr)]
             else critiques))"

fun hint_states ::
  "(string \<times> state_record) list \<Rightarrow> string list \<Rightarrow> py_error + string list" where
  \<comment> \<open>the outer loop of \<^verbatim>\<open>_check_comment_hints\<close>; \<^verbatim>\<open>data.get('comment', '')\<close> is \<^verbatim>\<open>None\<close>
      for a state without a comment, and \<^verbatim>\<open>'v2' in None\<close> raises\<close>
  "hint_states [] critiques = Inr critiques"
| "hint_states ((state, data) # rest) critiques =
     (case s_comment data of
        None \<Rightarrow> Inl TypeError
      | Some comment \<Rightarrow>
          (case hint_transitions state (transitions data)
                  (if contains ''v2'' comment \<or> contains ''future'' comment
                   then critiques @ [future_proofing_notice state comment]
                   else critiques) of
             Inl e \<Rightarrow> Inl e
           | Inr critiques' \<Rightarrow> hint_states rest critiques'))"

definition check_comment_hints :: "document \<Rightarrow> string list \<Rightarrow> py_error + string list" where
  "check_comment_hints d critiques = hint_states (states d) critiques"

definition validate :: "(string set \<Rightarrow> string list) \<Rightarrow> document \<Rightarrow> py_error + string list" where
  "validate iter d =
     (case find_deadlocks iter d (check_undefined_states iter d []) of
        Inl e \<Rightarrow> Inl e
      | Inr critiques \<Rightarrow> check_comment_hints d critiques)"

section \<open>Persistence\<close>

text \<open>
  \<^verbatim>\<open>StateMachine.save\<close> writes \<^verbatim>\<open>json.dumps(self.data, indent=2)\<close> to the file and
  \<^verbatim>\<open>StateMachine.load\<close> reads the file back with \<^verbatim>\<open>json.loads\<close>. The two functions belong
  to Python's standard library, not to the repository; the definitions below follow the
  library's encoder with an indent (\<^verbatim>\<open>_make_iterencode\<close> and \<^verbatim>\<open>py_encode_basestring_ascii\<close> of
  \<^verbatim>\<open>json/encoder.py\<close>) and its decoder (\<^verbatim>\<open>py_scanstring\<close>, \<^verbatim>\<open>JSONObject\<close>, \<^verbatim>\<open>JSONArray\<close> of
  \<^verbatim>\<open>json/decoder.py\<close> and \<^verbatim>\<open>_scan_once\<close> of \<^verbatim>\<open>json/scanner.py\<close>). A value is what the
  document holds: \<^verbatim>\<open>None\<close>, strings, lists and dictionaries. A character is a code point
  below 256. What the document never holds is not modelled: on a number, \<^verbatim>\<open>true\<close>,
  \<^verbatim>\<open>false\<close> or an escape \<^verbatim>\<open>\uXXXX\<close> of a code point from 256 on, the decoder of the model
  answers \<open>NotModelled\<close>. The loops of the decoder run on fuel, and \<open>json_loads\<close> gives
  them more than the length of the text.
\<close>

datatype py_value =
    PyNone
  | PyStr string
  | PyList "py_value list"
  | PyDict "(string \<times> py_value) list"

datatype decode_error = JSONDecodeError | NotModelled

definition dquote :: char where
  "dquote = CHR 0x22"

definition backslash :: char where
  "backslash = CHR 0x5C"

definition hex_digit :: "nat \<Rightarrow> char" where
  \<comment> \<open>a digit of the format \<^verbatim>\<open>{0:04x}\<close>\<close>
  "hex_digit d = (if d < 10 then char_of (48 + d) else char_of (87 + d))"

definition hex4 :: "nat \<Rightarrow> string" where
  \<comment> \<open>\<^verbatim>\<open>'{0:04x}'.format(n)\<close> for a code point below 65536\<close>
  "hex4 n = [hex_digit (n div 4096 mod 16), hex_digit (n div 256 mod 16),
             hex_digit (n div 16 mod 16), hex_digit (n mod 16)]"

definition encode_char :: "char \<Rightarrow> string" where
  \<comment> \<open>the replacement of one character by \<^verbatim>\<open>py_encode_basestring_ascii\<close>: the table
      \<^verbatim>\<open>ESCAPE_DCT\<close>, the printable ASCII characters as they are, \<^verbatim>\<open>\uXXXX\<close> otherwise\<close>
  "encode_char c =
     (if c = backslash then [backslash, backslash]
      else if c = dquote then [backslash, dquote]
      else if c = CHR 0x08 then [backslash, CHR ''b'']
      else if c = CHR 0x0C then [backslash, CHR ''f'']
      else if c = CHR 0x0A then [backslash, CHR ''n'']
      else if c = CHR 0x0D then [backslash, CHR ''r'']
      else if c = CHR 0x09 then [backslash, CHR ''t'']
      else if 32 \<le> (of_char c :: nat) \<and> (of_char c :: nat) \<le> 126 then [c]
      else backslash # CHR ''u'' # hex4 (of_char c))"

definition encode_basestring_ascii :: "string \<Rightarrow> string" where
  "encode_basestring_ascii s = dquote # concat (map encode_char s) @ [dquote]"

definition newline_indent :: "nat \<Rightarrow> string" where
  \<comment> \<open>\<^verbatim>\<open>'\n' + _indent * _current_indent_level\<close> with \<^verbatim>\<open>_indent\<close> two spaces\<close>
  "newline_indent level = CHR 0x0A # replicate (2 * level) CHR '' ''"

fun iterencode :: "nat \<Rightarrow> py_value \<Rightarrow> string"
  and iterencode_list :: "nat \<Rightarrow> py_value list \<Rightarrow> string"
  and iterencode_dict :: "nat \<Rightarrow> (string \<times> py_value) list \<Rightarrow> string" where
  "iterencode level PyNone = ''null''"
| "iterencode level (PyStr s) = encode_basestring_ascii s"
| "iterencode level (PyList lst) =
     (if lst = [] then ''[]''
      else ''['' @ newline_indent (level + 1) @ iterencode_list (level + 1) lst
           @ newline_indent level @ '']'')"
| "iterencode level (PyDict dct) =
     (if dct = [] then ''{}''
      else ''{'' @ newline_indent (level + 1) @ iterencode_dict (level + 1) dct
           @ newline_indent level @ ''}'')"
| "iterencode_list level [] = []"
| "iterencode_list level [v] = iterencode level v"
| "iterencode_list level (v # w # vs) =
     iterencode level v @ '','' @ newline_indent level @ iterencode_list level (w # vs)"
| "iterencode_dict level [] = []"
| "iterencode_dict level [(k, v)] =
     encode_basestring_ascii k @ '': '' @ iterencode level v"
| "iterencode_dict level ((k, v) # kw # kvs) =
     encode_basestring_ascii k @ '': '' @ iterencode level v
     @ '','' @ newline_indent level @ iterencode_dict level (kw # kvs)"

definition json_dumps :: "py_value \<Rightarrow> string" where
  \<comment> \<open>\<^verbatim>\<open>json.dumps(obj, indent=2)\<close>\<close>
  "json_dumps obj = iterencode 0 obj"

definition json_ws :: "char \<Rightarrow> bool" where
  \<comment> \<open>\<^verbatim>\<open>WHITESPACE_STR = ' \t\n\r'\<close>\<close>
  "json_ws c = (c \<in> set [CHR '' '', CHR 0x09, CHR 0x0A, CHR 0x0D])"

definition skip_ws :: "string \<Rightarrow> string" where
  \<comment> \<open>\<^verbatim>\<open>end = _w(s, end).end()\<close>\<close>
  "skip_ws s = dropWhile json_ws s"

definition hex_val :: "char \<Rightarrow> nat option" where
  "hex_val c =
     (let n = (of_char c :: nat)
      in if 48 \<le> n \<and> n \<le> 57 then Some (n - 48)
         else if 97 \<le> n \<and> n \<le> 102 then Some (n - 87)
         else if 65 \<le> n \<and> n \<le> 70 then Some (n - 55)
         else None)"

definition decode_uXXXX :: "char \<Rightarrow> char \<Rightarrow> char \<Rightarrow> char \<Rightarrow> nat option" where
  "decode_uXXXX a b c d =
     (case (hex_val a, hex_val b, hex_val c, hex_val d) of
        (Some x, Some y, Some z, Some w) \<Rightarrow> Some (4096 * x + 256 * y + 16 * z + w)
      | _ \<Rightarrow> None)"

definition backslash_table :: "char \<Rightarrow> char option" where
  \<comment> \<open>the table \<^verbatim>\<open>BACKSLASH\<close>\<close>
  "backslash_table e =
     (if e = dquote then Some dquote
      else if e = backslash then Some backslash
      else if e = CHR ''/'' then Some CHR ''/''
      else if e = CHR ''b'' then Some CHR 0x08
      else if e = CHR ''f'' then Some CHR 0x0C
      else if e = CHR ''n'' then Some CHR 0x0A
      else if e = CHR ''r'' then Some CHR 0x0D
      else if e = CHR ''t'' then Some CHR 0x09
      else None)"

fun scanstring :: "string \<Rightarrow> string \<Rightarrow> decode_error + (string \<times> string)" where
  \<comment> \<open>\<^verbatim>\<open>py_scanstring\<close> with \<^verbatim>\<open>strict=True\<close>, after the opening quote\<close>
  "scanstring acc [] = Inl JSONDecodeError"
| "scanstring acc (c # cs) =
     (if c = dquote then Inr (acc, cs)
      else if c = backslash then
        (case cs of
           [] \<Rightarrow> Inl JSONDecodeError
         | e # es \<Rightarrow>
             if e = CHR ''u'' then
               (case es of
                  h1 # h2 # h3 # h4 # rest \<Rightarrow>
                    (case decode_uXXXX h1 h2 h3 h4 of
                       None \<Rightarrow> Inl JSONDecodeError
                     | Some uni \<Rightarrow>
                         if uni < 256 then scanstring (acc @ [char_of uni]) rest
                         else Inl NotModelled)
                | _ \<Rightarrow> Inl JSONDecodeError)
             else
               (case backslash_table e of
                  None \<Rightarrow> Inl JSONDecodeError
                | Some ch \<Rightarrow> scanstring (acc @ [ch]) es))
      else if (of_char c :: nat) < 32 then Inl JSONDecodeError
      else scanstring (acc @ [c]) cs)"

definition dict_of_pairs :: "(string \<times> py_value) list \<Rightarrow> (string \<times> py_value) list" where
  \<comment> \<open>\<^verbatim>\<open>dict(pairs)\<close>\<close>
  "dict_of_pairs pairs = fold (\<lambda>(k, v) d. AList.update k v d) pairs []"

type_synonym 'a decoded = "decode_error + ('a \<times> string)"

primrec array_loop ::
  "nat \<Rightarrow> (string \<Rightarrow> py_value decoded) \<Rightarrow> py_value list \<Rightarrow> string \<Rightarrow> py_value decoded" where
  \<comment> \<open>the \<^verbatim>\<open>while True\<close> of \<^verbatim>\<open>JSONArray\<close>, on fuel\<close>
  "array_loop 0 scan vals s = Inl NotModelled"
| "array_loop (Suc n) scan vals s =
     (case scan s of
        Inl e \<Rightarrow> Inl e
      | Inr (v, rest) \<Rightarrow>
          (case skip_ws rest of
             [] \<Rightarrow> Inl JSONDecodeError
           | c # cs \<Rightarrow>
               if c = CHR '']'' then Inr (PyList (vals @ [v]), cs)
               else if c = CHR '','' then array_loop n scan (vals @ [v]) (skip_ws cs)
               else Inl JSONDecodeError))"

definition json_array ::
  "nat \<Rightarrow> (string \<Rightarrow> py_value decoded) \<Rightarrow> string \<Rightarrow> py_value decoded" where
  \<comment> \<open>\<^verbatim>\<open>JSONArray\<close>, after the opening bracket\<close>
  "json_array n scan s =
     (case skip_ws s of
        [] \<Rightarrow> Inl JSONDecodeError
      | c # cs \<Rightarrow>
          if c = CHR '']'' then Inr (PyList [], cs) else array_loop n scan [] (c # cs))"

primrec object_loop ::
  "nat \<Rightarrow> (string \<Rightarrow> py_value decoded) \<Rightarrow> (string \<times> py_value) list \<Rightarrow> string
     \<Rightarrow> py_value decoded" where
  \<comment> \<open>the \<^verbatim>\<open>while True\<close> of \<^verbatim>\<open>JSONObject\<close>, after the quote that opens a key, on fuel\<close>
  "object_loop 0 scan pairs s = Inl NotModelled"
| "object_loop (Suc n) scan pairs s =
     (case scanstring [] s of
        Inl e \<Rightarrow> Inl e
      | Inr (key, rest) \<Rightarrow>
          (case skip_ws rest of
             [] \<Rightarrow> Inl JSONDecodeError
           | c # cs \<Rightarrow>
               if c \<noteq> CHR '':'' then Inl JSONDecodeError
               else
                 (case scan (skip_ws cs) of
                    Inl e \<Rightarrow> Inl e
                  | Inr (v, rest') \<Rightarrow>
                      (case skip_ws rest' of
                         [] \<Rightarrow> Inl JSONDecodeError
                       | c' # cs' \<Rightarrow>
                           if c' = CHR ''}''
                           then Inr (PyDict (dict_of_pairs (pairs @ [(key, v)])), cs')
                           else if c' = CHR '','' then
                             (case skip_ws cs' of
                                [] \<Rightarrow> Inl JSONDecodeError
                              | q # qs \<Rightarrow>
                                  if q = dquote then object_loop n scan (pairs @ [(key, v)]) qs
                                  else Inl JSONDecodeError)
                           else Inl JSONDecodeError))))"

definition json_object ::
  "nat \<Rightarrow> (string \<Rightarrow> py_value decoded) \<Rightarrow> string \<Rightarrow> py_value decoded" where
  \<comment> \<open>\<^verbatim>\<open>JSONObject\<close>, after the opening brace\<close>
  "json_object n scan s =
     (case skip_ws s of
        [] \<Rightarrow> Inl JSONDecodeError
      | c # cs \<Rightarrow>
          if c = CHR ''}'' then Inr (PyDict [], cs)
          else if c = dquote then object_loop n scan [] cs
          else Inl JSONDecodeError)"

definition scan_value ::
  "nat \<Rightarrow> (string \<Rightarrow> py_value decoded) \<Rightarrow> string \<Rightarrow> py_value decoded" where
  \<comment> \<open>the body of \<^verbatim>\<open>_scan_once\<close>; \<open>scan\<close> is the scanner handed to \<^verbatim>\<open>JSONObject\<close> and
      \<^verbatim>\<open>JSONArray\<close> for the values inside\<close>
  "scan_value n scan s =
     (case s of
        [] \<Rightarrow> Inl JSONDecodeError
      | c # cs \<Rightarrow>
          if c = dquote then
            (case scanstring [] cs of
               Inl e \<Rightarrow> Inl e
             | Inr (str, rest) \<Rightarrow> Inr (PyStr str, rest))
          else if c = CHR ''{'' then json_object n scan cs
          else if c = CHR ''['' then json_array n scan cs
          else if c = CHR ''n'' \<and> take 3 cs = ''ull'' then Inr (PyNone, drop 3 cs)
          else if c = CHR ''t'' \<and> take 3 cs = ''rue'' then Inl NotModelled
          else if c = CHR ''f'' \<and> take 4 cs = ''alse'' then Inl NotModelled
          else if c = CHR ''-'' \<or> c \<in> set ''0123456789'' then Inl NotModelled
            \<comment> \<open>a number, \<^verbatim>\<open>-Infinity\<close>, or a sign that starts neither\<close>
          else if c = CHR ''N'' \<and> take 2 cs = ''aN'' then Inl NotModelled
          else if c = CHR ''I'' \<and> take 7 cs = ''nfinity'' then Inl NotModelled
          else Inl JSONDecodeError)"

primrec scan_once :: "nat \<Rightarrow> string \<Rightarrow> py_value decoded" where
  \<comment> \<open>\<^verbatim>\<open>scan_once\<close>, on fuel: one unit for each level of nesting and each turn of a loop\<close>
  "scan_once 0 = (\<lambda>s. Inl NotModelled)"
| "scan_once (Suc n) = scan_value n (scan_once n)"

definition json_loads :: "string \<Rightarrow> decode_error + py_value" where
  \<comment> \<open>\<^verbatim>\<open>json.loads\<close>: \<^verbatim>\<open>JSONDecoder.decode\<close> skips the whitespace before the value and
      refuses anything but whitespace after it\<close>
  "json_loads s =
     (case scan_once (Suc (length s)) (skip_ws s) of
        Inl e \<Rightarrow> Inl e
      | Inr (obj, rest) \<Rightarrow> if skip_ws rest = [] then Inr obj else Inl JSONDecodeError)"

text \<open>
  The keys of a Python dictionary are distinct. A dictionary of the model is an
  association list, and \<open>unique_keys\<close> says of a value that it is one Python can hold:
  in each dictionary inside it no key stands twice.
\<close>

fun unique_keys :: "py_value \<Rightarrow> bool"
  and unique_keys_list :: "py_value list \<Rightarrow> bool"
  and unique_keys_dict :: "(string \<times> py_value) list \<Rightarrow> bool" where
  "unique_keys PyNone = True"
| "unique_keys (PyStr s) = True"
| "unique_keys (PyList lst) = unique_keys_list lst"
| "unique_keys (PyDict dct) = (distinct (map fst dct) \<and> unique_keys_dict dct)"
| "unique_keys_list [] = True"
| "unique_keys_list (v # vs) = (unique_keys v \<and> unique_keys_list vs)"
| "unique_keys_dict [] = True"
| "unique_keys_dict ((k, v) # kvs) = (unique_keys v \<and> unique_keys_dict kvs)"

text \<open>
  \<^verbatim>\<open>self.data\<close> is the dictionary that the records of the data model stand for; the keys
  are in the order in which the source stores them.
\<close>

definition comment_value :: "string option \<Rightarrow> py_value" where
  "comment_value c = (case c of None \<Rightarrow> PyNone | Some text \<Rightarrow> PyStr text)"

definition transition_value :: "transition \<Rightarrow> py_value" where
  "transition_value t =
     PyDict [(''event'', PyStr (t_event t)), (''condition'', PyStr (t_condition t)),
             (''target'', PyStr (t_target t)), (''comment'', comment_value (t_comment t))]"

definition global_transition_value :: "global_transition \<Rightarrow> py_value" where
  "global_transition_value g =
     PyDict [(''event'', PyStr (g_event g)), (''actions'', PyList (map PyStr (g_actions g))),
             (''target'', PyStr (g_target g)), (''comment'', comment_value (g_comment g))]"

definition state_value :: "state_record \<Rightarrow> py_value" where
  "state_value r =
     PyDict [(''outputs'', PyDict (map (\<lambda>(k, v). (k, PyStr v)) (outputs r))),
             (''comment'', comment_value (s_comment r)),
             (''transitions'', PyList (map transition_value (transitions r)))]"

definition document_value :: "document \<Rightarrow> py_value" where
  "document_value d =
     PyDict [(''header'', PyDict (map (\<lambda>(k, v). (k, PyStr v)) (header d))),
             (''assumptions'', PyList (map PyStr (assumptions d))),
             (''global_transitions'', PyList (map global_transition_value (global_transitions d))),
             (''states'', PyDict (map (\<lambda>(n, r). (n, state_value r)) (states d)))]"

definition save :: "py_value \<Rightarrow> string option \<Rightarrow> string option" where
  \<comment> \<open>\<^verbatim>\<open>StateMachine.save\<close>: the file is its text, or \<open>None\<close> when it does not exist;
      \<^verbatim>\<open>write_text\<close> replaces what the file held\<close>
  "save data file = Some (json_dumps data)"

definition load :: "string option \<Rightarrow> py_value option" where
  \<comment> \<open>\<^verbatim>\<open>StateMachine.load\<close>, with the value it leaves in \<^verbatim>\<open>self.data\<close>; \<open>None\<close> where the
      decoder of the model has no answer\<close>
  "load file =
     (case file of
        None \<Rightarrow> Some (document_value get_initial_structure)
      | Some text \<Rightarrow>
          (case json_loads text of
             Inr data \<Rightarrow> Some data
           | Inl JSONDecodeError \<Rightarrow> Some (document_value get_initial_structure)
           | Inl NotModelled \<Rightarrow> None))"

section \<open>Inputs of the examples\<close>

definition newline :: string where
  "newline = [CHR 0x0A]"

definition state_list_parser :: parser where
  \<comment> \<open>a parser on the empty document, inside the STATE_LIST section\<close>
  "state_list_parser =
     \<lparr>lines = [], sm = get_initial_structure,
      current_section = Some ''STATE_LIST'', current_from_state = None\<rparr>"

definition door_parser :: parser where
  \<comment> \<open>the state A, declared, with a transition to B\<close>
  "door_parser =
     \<lparr>lines = [],
      sm = \<lparr>header = [], assumptions = [], global_transitions = [],
            states = [(''A'', \<lparr>outputs = [], s_comment = None,
                               transitions = [\<lparr>t_event = ''E'', t_condition = ''x'',
                                                t_target = ''B'', t_comment = None\<rparr>]\<rparr>)]\<rparr>,
      current_section = Some ''STATE_LIST'', current_from_state = None\<rparr>"

definition two_undefined_targets :: document where
  \<comment> \<open>the state A with transitions to C and to itself, and a global transition to B;
      neither B nor C is declared\<close>
  "two_undefined_targets =
     \<lparr>header = [], assumptions = [],
      global_transitions = [\<lparr>g_event = ''RESET'', g_actions = [], g_target = ''B'',
                              g_comment = None\<rparr>],
      states = [(''A'', \<lparr>outputs = [], s_comment = None,
                         transitions = [\<lparr>t_event = ''E'', t_condition = ''x'',
                                          t_target = ''C'', t_comment = None\<rparr>,
                                        \<lparr>t_event = ''F'', t_condition = ''y'',
                                          t_target = ''A'', t_comment = None\<rparr>]\<rparr>)]\<rparr>"

definition reachable_terminal :: document where
  \<comment> \<open>the states A and B without transitions, and a global transition to B\<close>
  "reachable_terminal =
     \<lparr>header = [], assumptions = [],
      global_transitions = [\<lparr>g_event = ''RESET'', g_actions = [], g_target = ''B'',
                              g_comment = None\<rparr>],
      states = [(''A'', \<lparr>outputs = [], s_comment = None, transitions = []\<rparr>),
                (''B'', \<lparr>outputs = [], s_comment = None, transitions = []\<rparr>)]\<rparr>"

definition global_parser :: parser where
  \<comment> \<open>a parser on the empty document, inside the GLOBAL_TRANSITIONS section\<close>
  "global_parser =
     \<lparr>lines = [], sm = get_initial_structure,
      current_section = Some ''GLOBAL_TRANSITIONS'', current_from_state = None\<rparr>"

definition door_lock :: document where
  \<comment> \<open>a document with every kind of field filled\<close>
  "door_lock =
     \<lparr>header = [(''feature'', ''Door Lock'')],
      assumptions = [''Keypad is debounced''],
      global_transitions =
        [\<lparr>g_event = ''RESET'', g_actions = [''STOP_ALL_TIMERS''], g_target = ''IDLE'',
          g_comment = None\<rparr>],
      states =
        [(''IDLE'', \<lparr>outputs = [(''Bolt'', ''HIGH'')], s_comment = Some ''secured'',
                      transitions = [\<lparr>t_event = ''KEY'', t_condition = ''Code == VALID'',
                                       t_target = ''OPEN'', t_comment = None\<rparr>]\<rparr>),
         (''OPEN'', \<lparr>outputs = [], s_comment = None, transitions = []\<rparr>)]\<rparr>"

section \<open>What a match says about the text\<close>

text \<open>
  The longest repetition is tried first, so a greedy star whose continuation accepts
  the longest repetition returns that match; and every match of a construct splits the
  text into what the construct read and what its continuation matched.
\<close>

lemma star_greedy_longest:
  "k (acc @ takeWhile P s) (dropWhile P s) = Some r \<Longrightarrow> star_greedy P acc s k = Some r"
  by (induction s arbitrary: acc) auto

lemma star_greedy_sound:
  "star_greedy P acc s k = Some r \<Longrightarrow>
   \<exists>m rest. s = m @ rest \<and> list_all P m \<and> k (acc @ m) rest = Some r"
proof (induction s arbitrary: acc)
  case Nil
  then show ?case by simp
next
  case (Cons c cs)
  show ?case
  proof (cases "P c \<and> star_greedy P (acc @ [c]) cs k = Some r")
    case True
    then obtain m rest where "cs = m @ rest" "list_all P m" "k ((acc @ [c]) @ m) rest = Some r"
      using Cons.IH by blast
    then have "c # cs = (c # m) @ rest \<and> list_all P (c # m) \<and> k (acc @ c # m) rest = Some r"
      using True by simp
    then show ?thesis by blast
  next
    case False
    then have "k (acc @ []) (c # cs) = Some r"
      using Cons.prems by (auto split: if_splits option.splits)
    then have "c # cs = [] @ (c # cs) \<and> list_all P [] \<and> k (acc @ []) (c # cs) = Some r"
      by simp
    then show ?thesis by blast
  qed
qed

lemma star_lazy_sound:
  "star_lazy P acc s k = Some r \<Longrightarrow>
   \<exists>m rest. s = m @ rest \<and> list_all P m \<and> k (acc @ m) rest = Some r"
proof (induction s arbitrary: acc)
  case Nil
  then show ?case by simp
next
  case (Cons c cs)
  show ?case
  proof (cases "k acc (c # cs)")
    case (Some r')
    then have "c # cs = [] @ (c # cs) \<and> list_all P [] \<and> k (acc @ []) (c # cs) = Some r"
      using Cons.prems by simp
    then show ?thesis by blast
  next
    case None
    then have pc: "P c" and rec: "star_lazy P (acc @ [c]) cs k = Some r"
      using Cons.prems by (auto split: if_splits)
    then obtain m rest where "cs = m @ rest" "list_all P m" "k ((acc @ [c]) @ m) rest = Some r"
      using Cons.IH by blast
    then have "c # cs = (c # m) @ rest \<and> list_all P (c # m) \<and> k (acc @ c # m) rest = Some r"
      using pc by simp
    then show ?thesis by blast
  qed
qed

lemma plus_greedy_sound:
  "plus_greedy P s k = Some r \<Longrightarrow>
   \<exists>m rest. s = m @ rest \<and> m \<noteq> [] \<and> list_all P m \<and> k m rest = Some r"
proof (cases s)
  case Nil
  assume "plus_greedy P s k = Some r"
  then show ?thesis using Nil by (simp add: plus_greedy_def)
next
  case (Cons c cs)
  assume a: "plus_greedy P s k = Some r"
  then have pc: "P c" and sg: "star_greedy P [c] cs k = Some r"
    using Cons by (auto simp: plus_greedy_def split: if_splits)
  from sg have "\<exists>m rest. cs = m @ rest \<and> list_all P m \<and> k ([c] @ m) rest = Some r"
    by (rule star_greedy_sound)
  then obtain m rest where "cs = m @ rest" "list_all P m" "k ([c] @ m) rest = Some r"
    by blast
  then have "s = (c # m) @ rest \<and> c # m \<noteq> [] \<and> list_all P (c # m) \<and> k (c # m) rest = Some r"
    using pc Cons by simp
  then show ?thesis by blast
qed

lemma lit_ci_sound:
  "lit_ci p s k = Some r \<Longrightarrow>
   \<exists>t rest. s = t @ rest \<and> lower t = lower p \<and> k rest = Some r"
proof -
  assume "lit_ci p s k = Some r"
  then have "lower (take (length p) s) = lower p" "k (drop (length p) s) = Some r"
    by (auto simp: lit_ci_def split: if_splits)
  then have "s = take (length p) s @ drop (length p) s \<and> lower (take (length p) s) = lower p
             \<and> k (drop (length p) s) = Some r"
    by simp
  then show ?thesis by blast
qed

lemma re_search_sound:
  "re_search m s = Some r \<Longrightarrow> \<exists>pre rest. s = pre @ rest \<and> m rest = Some r"
proof (induction s)
  case Nil
  then show ?case by simp
next
  case (Cons c cs)
  show ?case
  proof (cases "m (c # cs)")
    case None
    then have "re_search m cs = Some r" using Cons.prems by simp
    then obtain pre rest where "cs = pre @ rest" "m rest = Some r" using Cons.IH by blast
    then have "c # cs = (c # pre) @ rest \<and> m rest = Some r" by simp
    then show ?thesis by blast
  next
    case (Some r')
    then have "c # cs = [] @ (c # cs) \<and> m (c # cs) = Some r" using Cons.prems by simp
    then show ?thesis by blast
  qed
qed


lemma star_greedy_total_fst:
  assumes "\<And>x t. \<exists>y. k x t = Some (x, y)"
  shows "\<exists>y. star_greedy P acc s k = Some (acc @ takeWhile P s, y)"
proof -
  obtain y where "k (acc @ takeWhile P s) (dropWhile P s) = Some (acc @ takeWhile P s, y)"
    using assms [of "acc @ takeWhile P s" "dropWhile P s"] by blast
  then have "star_greedy P acc s k = Some (acc @ takeWhile P s, y)"
    by (rule star_greedy_longest)
  then show ?thesis by simp
qed

lemma star_greedy_total_const:
  assumes "\<And>x t. \<exists>y. k x t = Some (g, y)"
  shows "\<exists>y. star_greedy P acc s k = Some (g, y)"
proof -
  obtain y where "k (acc @ takeWhile P s) (dropWhile P s) = Some (g, y)"
    using assms [of "acc @ takeWhile P s" "dropWhile P s"] by blast
  then have "star_greedy P acc s k = Some (g, y)"
    by (rule star_greedy_longest)
  then show ?thesis by simp
qed

section \<open>The state pattern\<close>

text \<open>
  The state pattern ends in an optional group, so it matches wherever a word character
  stands, and the name it captures is the whole run of word characters from there.
\<close>

lemma output_group_fst:
  assumes "lit_ci ''[Output:'' s (\<lambda>s.
             star_greedy is_space [] s (\<lambda>_ s.
             star_lazy not_newline [] s (\<lambda>outputs s.
             lit_ci '']'' s (\<lambda>_. Some (state, Some outputs))))) = Some r"
  shows "fst r = state"
proof -
  obtain s1 where a1: "star_greedy is_space [] s1 (\<lambda>_ s.
             star_lazy not_newline [] s (\<lambda>outputs s.
             lit_ci '']'' s (\<lambda>_. Some (state, Some outputs)))) = Some r"
    using lit_ci_sound [OF assms] by blast
  obtain s2 where a2: "star_lazy not_newline [] s2 (\<lambda>outputs s.
             lit_ci '']'' s (\<lambda>_. Some (state, Some outputs))) = Some r"
    using star_greedy_sound [OF a1] by blast
  obtain os s3 where a3: "lit_ci '']'' s3 (\<lambda>_. Some (state, Some os)) = Some r"
    using star_lazy_sound [OF a2] by blast
  have "Some (state, Some os) = Some r"
    using lit_ci_sound [OF a3] by blast
  then show ?thesis by auto
qed

lemma state_pattern_word:
  assumes "is_word c"
  shows "\<exists>outs. state_pattern (c # cs) = Some (takeWhile is_word (c # cs), outs)"
proof -
  let ?g = "\<lambda>state s. lit_ci ''[Output:'' s (\<lambda>s.
             star_greedy is_space [] s (\<lambda>_ s.
             star_lazy not_newline [] s (\<lambda>outputs s.
             lit_ci '']'' s (\<lambda>_. Some (state, Some outputs)))))"
  let ?k2 = "\<lambda>state (_::string) s. (case ?g state s of Some r \<Rightarrow> Some r | None \<Rightarrow> Some (state, None))"
  let ?k = "\<lambda>state s. star_greedy is_space [] s (?k2 state)"
  have k2: "\<exists>y. ?k2 state x t = Some (state, y)" for state x t
  proof (cases "?g state t")
    case None
    then show ?thesis by simp
  next
    case (Some r)
    then have "fst r = state" by (rule output_group_fst)
    then show ?thesis using Some by (cases r) simp
  qed
  have k: "\<exists>y. ?k state t = Some (state, y)" for state t
    by (rule star_greedy_total_const) (rule k2)
  have "\<exists>y. star_greedy is_word [c] cs ?k = Some ([c] @ takeWhile is_word cs, y)"
    by (rule star_greedy_total_fst) (rule k)
  then show ?thesis
    using assms by (simp add: state_pattern_def plus_greedy_def)
qed

lemma state_pattern_not_word:
  "\<not> is_word c \<Longrightarrow> state_pattern (c # cs) = None"
  by (simp add: state_pattern_def plus_greedy_def)

lemma state_pattern_Nil: "state_pattern [] = None"
  by (simp add: state_pattern_def plus_greedy_def)

lemma search_state_pattern_none:
  "\<not> list_ex is_word line \<Longrightarrow> re_search state_pattern line = None"
  by (induction line) (simp_all add: state_pattern_Nil state_pattern_not_word)

lemma search_state_pattern:
  "list_ex is_word line \<Longrightarrow>
   \<exists>outs. re_search state_pattern line =
     Some (takeWhile is_word (dropWhile (\<lambda>c. \<not> is_word c) line), outs)"
proof (induction line)
  case Nil
  then show ?case by simp
next
  case (Cons c cs)
  show ?case
  proof (cases "is_word c")
    case True
    then obtain outs where "state_pattern (c # cs) = Some (takeWhile is_word (c # cs), outs)"
      using state_pattern_word by blast
    then show ?thesis using True by simp
  next
    case False
    then have "list_ex is_word cs" using Cons.prems by simp
    then show ?thesis using Cons.IH False by (simp add: state_pattern_not_word)
  qed
qed

lemma first_word_nonempty:
  "list_ex is_word line \<Longrightarrow> takeWhile is_word (dropWhile (\<lambda>c. \<not> is_word c) line) \<noteq> []"
  by (induction line) auto

section \<open>The sets of the validator\<close>

lemma fold_insert_image:
  "fold (\<lambda>x A. insert (f x) A) xs A0 = A0 \<union> f ` set xs"
  by (induction xs arbitrary: A0) auto

lemma fold_union_image:
  "fold (\<lambda>x A. A \<union> h x) xs A0 = A0 \<union> (\<Union>x \<in> set xs. h x)"
  by (induction xs arbitrary: A0) auto

lemma get_all_target_states_eq:
  "get_all_target_states d =
   g_target ` set (global_transitions d) \<union>
   (\<Union>r \<in> snd ` set (states d). t_target ` set (transitions r))"
  unfolding get_all_target_states_def Let_def fold_insert_image fold_union_image
  by simp

lemma get_all_defined_states_eq:
  "get_all_defined_states d = fst ` set (states d)"
  by (simp add: get_all_defined_states_def)

lemma is_global_target_iff:
  "is_global_target d s \<longleftrightarrow> s \<in> g_target ` set (global_transitions d)"
  by (auto simp: is_global_target_def list_ex_iff)

lemma is_regular_target_iff:
  "is_regular_target d s \<longleftrightarrow>
   s \<in> (\<Union>r \<in> snd ` set (states d). t_target ` set (transitions r))"
  by (auto simp: is_regular_target_def list_ex_iff)

section \<open>The loop of the deadlock check\<close>

lemma potential_deadlock_inj: "potential_deadlock a = potential_deadlock b \<Longrightarrow> a = b"
  by (simp add: potential_deadlock_def)

lemma count_list_map_filter:
  assumes "distinct xs" and "\<And>a b. f a = f b \<Longrightarrow> a = b"
  shows "count_list (map f (filter P xs)) (f s) = (if s \<in> set xs \<and> P s then 1 else 0)"
  using assms(1)
proof (induction xs)
  case Nil
  then show ?case by simp
next
  case (Cons x xs)
  then show ?case using assms(2) by auto
qed

lemma find_deadlocks_loop_eq:
  assumes "set xs \<subseteq> fst ` set (states d)"
  shows "find_deadlocks_loop d xs critiques =
         Inr (critiques @ map potential_deadlock
                (filter (\<lambda>s. \<exists>r. map_of (states d) s = Some r \<and> transitions r = [] \<and>
                               (is_global_target d s \<or> is_regular_target d s)) xs))"
  using assms
proof (induction xs arbitrary: critiques)
  case Nil
  then show ?case by simp
next
  case (Cons x xs)
  then have "x \<in> fst ` set (states d)" by simp
  then obtain r where r: "map_of (states d) x = Some r"
    by (metis domD dom_map_of_conv_image_fst)
  have sub: "set xs \<subseteq> fst ` set (states d)" using Cons.prems by simp
  show ?case
    using r Cons.IH [OF sub] by (simp add: Let_def)
qed

section \<open>The actions of a global transition\<close>

text \<open>
  Splitting at a character and joining with it are inverse, and no field of the split
  holds the character. A match of the global pattern that took the \<^verbatim>\<open>DO\<close> group read
  \<^verbatim>\<open>DO(\<close> in some case, then the actions, then the closing parenthesis.
\<close>

lemma lower_char_paren: "lower_char c = CHR '')'' \<Longrightarrow> c = CHR '')''"
proof (cases "65 \<le> (of_char c :: nat) \<and> (of_char c :: nat) \<le> 90")
  case False
  assume "lower_char c = CHR '')''"
  then show ?thesis using False by (simp add: lower_char_def Let_def)
next
  case True
  define n where "n = (of_char c :: nat)"
  assume "lower_char c = CHR '')''"
  then have "char_of (n + 32) = CHR '')''"
    using True by (simp add: lower_char_def Let_def n_def)
  then have "(of_char (char_of (n + 32)) :: nat) = of_char CHR '')''"
    by (rule arg_cong)
  then have m: "(n + 32) mod 256 = 41"
    by (simp only: of_char_of) simp
  have lo: "65 \<le> n" and hi: "n \<le> 90" using True by (simp_all add: n_def)
  from hi have "(n + 32) mod 256 = n + 32" by simp
  with m have "n + 32 = 41" by simp
  with lo have False by simp
  then show ?thesis ..
qed

lemma lower_close_paren: "lower t = lower '')'' \<Longrightarrow> t = '')''"
proof -
  assume a: "lower t = lower '')''"
  have l: "lower '')'' = '')''" by code_simp
  from a l have "map lower_char t = [CHR '')'']" by (simp add: lower_def)
  then obtain c where "t = [c]" "lower_char c = CHR '')''" by auto
  then show ?thesis using lower_char_paren by simp
qed

lemma split_on_nonempty: "split_on sep s \<noteq> []"
  by (induction s) (auto split: list.splits)

lemma join_split_on: "join [sep] (split_on sep s) = s"
proof (induction s)
  case Nil
  then show ?case by simp
next
  case (Cons c cs)
  obtain w ws where ws: "split_on sep cs = w # ws"
    using split_on_nonempty [of sep cs] by (cases "split_on sep cs") auto
  show ?case
  proof (cases "c = sep")
    case True
    then show ?thesis using Cons.IH ws by simp
  next
    case False
    then show ?thesis using Cons.IH ws by (cases ws) auto
  qed
qed

lemma split_on_no_sep: "list_all (\<lambda>f. sep \<notin> set f) (split_on sep s)"
proof (induction s)
  case Nil
  then show ?case by simp
next
  case (Cons c cs)
  then show ?case by (cases "split_on sep cs") auto
qed

lemma parse_actions_eq:
  "parse_actions a = filter (\<lambda>x. x \<noteq> []) (map strip (split_on CHR '','' a))"
  by (simp add: parse_actions_def filter_map comp_def)

lemma global_pattern_do_clause:
  assumes "global_pattern s = Some (event, Some a, target)"
  shows "\<exists>pre d post. s = pre @ d @ a @ '')'' @ post \<and> lower d = ''do(''"
proof -
  let ?R = "(event, Some a, target)"
  let ?K5 = "\<lambda>ev actions s. map_option (\<lambda>target. (ev, Some actions, target)) (to_clause s)"
  let ?K4 = "\<lambda>ev actions s. lit_ci '')'' s (?K5 ev actions)"
  let ?G = "\<lambda>ev s. lit_ci ''DO('' s (\<lambda>s. star_lazy not_newline [] s (?K4 ev))"
  let ?K3 = "\<lambda>ev (_::string) s.
               case ?G ev s of
                 Some r \<Rightarrow> Some r
               | None \<Rightarrow> map_option (\<lambda>target. (ev, None, target)) (to_clause s)"
  let ?K2 = "\<lambda>ev s. star_greedy is_space [] s (?K3 ev)"
  let ?K1 = "\<lambda>ev s. lit_ci ''):'' s (?K2 ev)"
  have a0: "lit_ci ''ON_EVENT('' s (\<lambda>s. plus_greedy is_word s ?K1) = Some ?R"
    using assms by (simp add: global_pattern_def)
  from lit_ci_sound [OF a0] obtain t1 s1
    where e1: "s = t1 @ s1" and a1: "plus_greedy is_word s1 ?K1 = Some ?R"
    by blast
  from plus_greedy_sound [OF a1] obtain ev s2
    where e2: "s1 = ev @ s2" and a2: "lit_ci ''):'' s2 (?K2 ev) = Some ?R"
    by blast
  from lit_ci_sound [OF a2] obtain t2 s3
    where e3: "s2 = t2 @ s3" and a3: "star_greedy is_space [] s3 (?K3 ev) = Some ?R"
    by blast
  from star_greedy_sound [OF a3] obtain w s4
    where e4: "s3 = w @ s4" and a4: "?K3 ev ([] @ w) s4 = Some ?R"
    by blast
  have a5: "?G ev s4 = Some ?R"
    using a4 by (auto split: option.splits)
  from lit_ci_sound [OF a5] obtain d s5
    where e5: "s4 = d @ s5" and ld: "lower d = lower ''DO(''"
      and a6: "star_lazy not_newline [] s5 (?K4 ev) = Some ?R"
    by blast
  from star_lazy_sound [OF a6] obtain m s6
    where e6: "s5 = m @ s6" and a7: "?K4 ev ([] @ m) s6 = Some ?R"
    by blast
  from lit_ci_sound [OF a7] obtain t3 s7
    where e7: "s6 = t3 @ s7" and lt: "lower t3 = lower '')''"
      and a8: "?K5 ev ([] @ m) s7 = Some ?R"
    by blast
  from a8 have am: "a = m"
    by (cases "to_clause s7") simp_all
  from lt have t3: "t3 = '')''"
    by (rule lower_close_paren)
  have "lower ''DO('' = ''do(''"
    by code_simp
  with ld have ld': "lower d = ''do(''"
    by (rule trans)
  have eq: "s = (t1 @ ev @ t2 @ w) @ d @ a @ '')'' @ s7"
    unfolding e1 e2 e3 e4 e5 e6 e7 am t3 by simp
  show ?thesis
  proof (intro exI conjI)
    show "s = (t1 @ ev @ t2 @ w) @ d @ a @ '')'' @ s7"
      by (rule eq)
    show "lower d = ''do(''"
      by (rule ld')
  qed
qed

lemma search_global_pattern_do_clause:
  assumes "re_search global_pattern line = Some (event, Some a, target)"
  shows "\<exists>pre d post. line = pre @ d @ a @ '')'' @ post \<and> lower d = ''do(''"
proof -
  from re_search_sound [OF assms] obtain pre0 rest
    where l: "line = pre0 @ rest" and g: "global_pattern rest = Some (event, Some a, target)"
    by blast
  from global_pattern_do_clause [OF g] obtain pre d post
    where r: "rest = pre @ d @ a @ '')'' @ post" and ld: "lower d = ''do(''"
    by blast
  have eq: "line = (pre0 @ pre) @ d @ a @ '')'' @ post"
    unfolding l r by simp
  show ?thesis
  proof (intro exI conjI)
    show "line = (pre0 @ pre) @ d @ a @ '')'' @ post"
      by (rule eq)
    show "lower d = ''do(''"
      by (rule ld)
  qed
qed

section \<open>The outputs and the comment of a state line\<close>

text \<open>
  The optional group of the state pattern takes part exactly when, after the name and
  the white space behind it, the text reads \<^verbatim>\<open>[Output:\<close> in some case and a closing
  bracket follows with no line feed before it; the group is then the text from the first
  character that is no white space up to that bracket. The loop over the fields of the
  group builds the dictionary of the pairs that the fields with exactly one \<^verbatim>\<open>=\<close> give,
  a key standing where it was first met and holding the value it was last given. The
  comment is the text behind the first \<^verbatim>\<open>#\<close> of the line.
\<close>

lemma lower_char_bracket: "lower_char c = CHR '']'' \<Longrightarrow> c = CHR '']''"
proof (cases "65 \<le> (of_char c :: nat) \<and> (of_char c :: nat) \<le> 90")
  case False
  assume "lower_char c = CHR '']''"
  then show ?thesis using False by (simp add: lower_char_def Let_def)
next
  case True
  define n where "n = (of_char c :: nat)"
  assume "lower_char c = CHR '']''"
  then have "char_of (n + 32) = CHR '']''"
    using True by (simp add: lower_char_def Let_def n_def)
  then have "(of_char (char_of (n + 32)) :: nat) = of_char CHR '']''"
    by (rule arg_cong)
  then have m: "(n + 32) mod 256 = 93"
    by (simp only: of_char_of) simp
  have lo: "65 \<le> n" and hi: "n \<le> 90" using True by (simp_all add: n_def)
  from hi have "(n + 32) mod 256 = n + 32" by simp
  with m have "n + 32 = 93" by simp
  with lo have False by simp
  then show ?thesis ..
qed

lemma lit_ci_bracket_Nil: "lit_ci '']'' [] k = None"
  by (simp add: lit_ci_def lower_def)

lemma lit_ci_bracket_Cons: "lit_ci '']'' (c # cs) k = (if c = CHR '']'' then k cs else None)"
proof -
  have l: "lower '']'' = '']''" by code_simp
  have "lower_char c = CHR '']'' \<longleftrightarrow> c = CHR '']''"
  proof
    assume "lower_char c = CHR '']''"
    then show "c = CHR '']''" by (rule lower_char_bracket)
  next
    assume "c = CHR '']''"
    then show "lower_char c = CHR '']''" using l by (simp add: lower_def)
  qed
  then show ?thesis by (simp add: lit_ci_def l) (simp add: lower_def)
qed

lemma star_lazy_bracket:
  "star_lazy not_newline acc s (\<lambda>outputs s. lit_ci '']'' s (\<lambda>_. Some (state, Some outputs))) =
     (if CHR '']'' \<in> set s \<and> CHR 0x0A \<notin> set (takeWhile (\<lambda>c. c \<noteq> CHR '']'') s)
      then Some (state, Some (acc @ takeWhile (\<lambda>c. c \<noteq> CHR '']'') s))
      else None)"
proof (induction s arbitrary: acc)
  case Nil
  show ?case by (simp add: lit_ci_bracket_Nil)
next
  case (Cons c cs)
  show ?case
  proof (cases "c = CHR '']''")
    case True
    then show ?thesis by (simp add: lit_ci_bracket_Cons)
  next
    case False
    then show ?thesis
      using Cons.IH [of "acc @ [c]"] by (simp add: lit_ci_bracket_Cons not_newline_def)
  qed
qed

lemma bracket_not_space: "\<not> is_space CHR '']''"
  by (simp add: is_space_def)

lemma clause_after_spaces:
  assumes "list_all is_space m"
    and "\<not> (CHR '']'' \<in> set s \<and> CHR 0x0A \<notin> set (takeWhile (\<lambda>c. c \<noteq> CHR '']'') s))"
  shows "\<not> (CHR '']'' \<in> set (m @ s) \<and> CHR 0x0A \<notin> set (takeWhile (\<lambda>c. c \<noteq> CHR '']'') (m @ s)))"
proof -
  have nb: "\<forall>c \<in> set m. c \<noteq> CHR '']''"
    using assms(1) bracket_not_space by (auto simp: list_all_iff)
  then have tw: "takeWhile (\<lambda>c. c \<noteq> CHR '']'') (m @ s) = m @ takeWhile (\<lambda>c. c \<noteq> CHR '']'') s"
    by (simp add: takeWhile_append2)
  have mem: "CHR '']'' \<in> set (m @ s) \<longleftrightarrow> CHR '']'' \<in> set s"
    using nb by auto
  show ?thesis using assms(2) unfolding tw mem by auto
qed

lemma star_greedy_clause:
  "star_greedy is_space acc s (\<lambda>_ s.
     star_lazy not_newline [] s (\<lambda>outputs s. lit_ci '']'' s (\<lambda>_. Some (state, Some outputs)))) =
   (if CHR '']'' \<in> set (dropWhile is_space s) \<and>
       CHR 0x0A \<notin> set (takeWhile (\<lambda>c. c \<noteq> CHR '']'') (dropWhile is_space s))
    then Some (state, Some (takeWhile (\<lambda>c. c \<noteq> CHR '']'') (dropWhile is_space s)))
    else None)"
proof (induction s arbitrary: acc)
  case Nil
  show ?case by (simp add: lit_ci_bracket_Nil)
next
  case (Cons c cs)
  show ?case
  proof (cases "is_space c")
    case False
    then show ?thesis by (simp add: star_lazy_bracket)
  next
    case True
    show ?thesis
    proof (cases "CHR '']'' \<in> set (dropWhile is_space cs) \<and>
       CHR 0x0A \<notin> set (takeWhile (\<lambda>c. c \<noteq> CHR '']'') (dropWhile is_space cs))")
      case ok: True
      then show ?thesis using True Cons.IH [of "acc @ [c]"] by simp
    next
      case bad: False
      have sp: "list_all is_space (c # takeWhile is_space cs)"
        using True by (simp add: list_all_iff) (meson set_takeWhileD)
      have "\<not> (CHR '']'' \<in> set ((c # takeWhile is_space cs) @ dropWhile is_space cs) \<and>
                CHR 0x0A \<notin> set (takeWhile (\<lambda>c. c \<noteq> CHR '']'')
                   ((c # takeWhile is_space cs) @ dropWhile is_space cs)))"
        using sp bad by (rule clause_after_spaces)
      then have here: "\<not> (CHR '']'' \<in> set (c # cs) \<and>
                CHR 0x0A \<notin> set (takeWhile (\<lambda>c. c \<noteq> CHR '']'') (c # cs)))"
        by simp
      have rec: "star_greedy is_space (acc @ [c]) cs (\<lambda>_ s.
           star_lazy not_newline [] s (\<lambda>outputs s. lit_ci '']'' s (\<lambda>_. Some (state, Some outputs))))
           = None"
        using bad Cons.IH [of "acc @ [c]"] by simp
      have k: "star_lazy not_newline [] (c # cs)
                 (\<lambda>outputs s. lit_ci '']'' s (\<lambda>_. Some (state, Some outputs))) = None"
        using here by (simp only: star_lazy_bracket if_False)
      show ?thesis using True bad rec k by simp
    qed
  qed
qed

lemma output_group_eq:
  "lit_ci ''[Output:'' s (\<lambda>s.
     star_greedy is_space [] s (\<lambda>_ s.
     star_lazy not_newline [] s (\<lambda>outputs s.
     lit_ci '']'' s (\<lambda>_. Some (state, Some outputs))))) =
   (if lower (take 8 s) = ''[output:'' \<and>
       CHR '']'' \<in> set (dropWhile is_space (drop 8 s)) \<and>
       CHR 0x0A \<notin> set (takeWhile (\<lambda>c. c \<noteq> CHR '']'') (dropWhile is_space (drop 8 s)))
    then Some (state, Some (takeWhile (\<lambda>c. c \<noteq> CHR '']'') (dropWhile is_space (drop 8 s))))
    else None)"
proof -
  have l: "lower ''[Output:'' = ''[output:''" by code_simp
  have len: "length ''[Output:'' = 8" by simp
  show ?thesis
    unfolding lit_ci_def [of "''[Output:''"] l len star_greedy_clause by simp
qed

lemma state_pattern_word_eq:
  assumes "is_word c"
  shows "state_pattern (c # cs) =
    Some (takeWhile is_word (c # cs),
      (if lower (take 8 (dropWhile is_space (dropWhile is_word cs))) = ''[output:'' \<and>
          CHR '']'' \<in> set (dropWhile is_space (drop 8 (dropWhile is_space (dropWhile is_word cs)))) \<and>
          CHR 0x0A \<notin> set (takeWhile (\<lambda>c. c \<noteq> CHR '']'')
             (dropWhile is_space (drop 8 (dropWhile is_space (dropWhile is_word cs)))))
       then Some (takeWhile (\<lambda>c. c \<noteq> CHR '']'')
             (dropWhile is_space (drop 8 (dropWhile is_space (dropWhile is_word cs)))))
       else None))"
proof -
  let ?cl = "\<lambda>s. (if lower (take 8 s) = ''[output:'' \<and>
          CHR '']'' \<in> set (dropWhile is_space (drop 8 s)) \<and>
          CHR 0x0A \<notin> set (takeWhile (\<lambda>c. c \<noteq> CHR '']'') (dropWhile is_space (drop 8 s)))
       then Some (takeWhile (\<lambda>c. c \<noteq> CHR '']'') (dropWhile is_space (drop 8 s)))
       else None)"
  let ?k2 = "\<lambda>state (_::string) s.
     (case lit_ci ''[Output:'' s (\<lambda>s.
             star_greedy is_space [] s (\<lambda>_ s.
             star_lazy not_newline [] s (\<lambda>outputs s.
             lit_ci '']'' s (\<lambda>_. Some (state, Some outputs))))) of
        Some r \<Rightarrow> Some r
      | None \<Rightarrow> Some (state, None))"
  let ?k1 = "\<lambda>state s. star_greedy is_space [] s (?k2 state)"
  have k2: "?k2 state x s = Some (state, ?cl s)" for state x s
    unfolding output_group_eq by simp
  have k1: "?k1 state s = Some (state, ?cl (dropWhile is_space s))" for state s
  proof -
    have "?k2 state ([] @ takeWhile is_space s) (dropWhile is_space s) =
            Some (state, ?cl (dropWhile is_space s))"
      by (rule k2)
    then show ?thesis by (rule star_greedy_longest)
  qed
  have "?k1 ([c] @ takeWhile is_word cs) (dropWhile is_word cs) =
          Some ([c] @ takeWhile is_word cs, ?cl (dropWhile is_space (dropWhile is_word cs)))"
    by (rule k1)
  then have "star_greedy is_word [c] cs ?k1 =
          Some ([c] @ takeWhile is_word cs, ?cl (dropWhile is_space (dropWhile is_word cs)))"
    by (rule star_greedy_longest)
  then show ?thesis
    using assms by (simp add: state_pattern_def plus_greedy_def)
qed

lemma search_state_pattern_eq:
  "list_ex is_word line \<Longrightarrow>
   re_search state_pattern line =
     Some (takeWhile is_word (dropWhile (\<lambda>c. \<not> is_word c) line),
       (if lower (take 8 (dropWhile is_space (dropWhile is_word
              (dropWhile (\<lambda>c. \<not> is_word c) line)))) = ''[output:'' \<and>
           CHR '']'' \<in> set (dropWhile is_space (drop 8 (dropWhile is_space (dropWhile is_word
              (dropWhile (\<lambda>c. \<not> is_word c) line))))) \<and>
           CHR 0x0A \<notin> set (takeWhile (\<lambda>c. c \<noteq> CHR '']'')
              (dropWhile is_space (drop 8 (dropWhile is_space (dropWhile is_word
              (dropWhile (\<lambda>c. \<not> is_word c) line))))))
        then Some (takeWhile (\<lambda>c. c \<noteq> CHR '']'')
              (dropWhile is_space (drop 8 (dropWhile is_space (dropWhile is_word
              (dropWhile (\<lambda>c. \<not> is_word c) line))))))
        else None))"
proof (induction line)
  case Nil
  then show ?case by simp
next
  case (Cons c cs)
  show ?case
  proof (cases "is_word c")
    case True
    show ?thesis
      using True by (simp only: re_search.simps state_pattern_word_eq [OF True]) simp
  next
    case False
    then have "list_ex is_word cs" using Cons.prems by simp
    then show ?thesis using Cons.IH False by (simp add: state_pattern_not_word)
  qed
qed

lemma split_on_none: "sep \<notin> set s \<Longrightarrow> split_on sep s = [s]"
  by (induction s) auto

lemma length_split_on: "length (split_on sep s) = Suc (count_list s sep)"
proof (induction s)
  case Nil
  show ?case by simp
next
  case (Cons c cs)
  then show ?case by (cases "split_on sep cs") auto
qed

lemma split_on_two:
  "count_list s sep = 1 \<Longrightarrow>
   split_on sep s = [takeWhile (\<lambda>c. c \<noteq> sep) s, tl (dropWhile (\<lambda>c. c \<noteq> sep) s)]"
proof (induction s)
  case Nil
  then show ?case by simp
next
  case (Cons c cs)
  show ?case
  proof (cases "c = sep")
    case True
    then have "count_list cs sep = 0" using Cons.prems by simp
    then have "sep \<notin> set cs" by (simp add: count_list_0_iff)
    then show ?thesis using True by (simp add: split_on_none)
  next
    case False
    then have "count_list cs sep = 1" using Cons.prems by simp
    then show ?thesis using Cons.IH False by simp
  qed
qed

lemma fold_filter_map:
  "fold (\<lambda>x acc. if P x then f (g x) acc else acc) xs acc = fold f (map g (filter P xs)) acc"
  by (induction xs arbitrary: acc) auto

lemma parse_outputs_eq:
  "parse_outputs os =
     fold (\<lambda>(k, v) d. AList.update k v d)
       (map (\<lambda>f. (strip (takeWhile (\<lambda>c. c \<noteq> CHR ''='') f),
                   strip (tl (dropWhile (\<lambda>c. c \<noteq> CHR ''='') f))))
          (filter (\<lambda>f. count_list f CHR ''='' = 1) (split_on CHR '','' os))) []"
proof -
  have step: "(\<lambda>part outputs_dict.
             (let key_val = split_on CHR ''='' part
              in if length key_val = 2
                 then AList.update (strip (key_val ! 0)) (strip (key_val ! 1)) outputs_dict
                 else outputs_dict)) =
        (\<lambda>part outputs_dict. if count_list part CHR ''='' = 1
           then (\<lambda>(k, v) d. AList.update k v d)
                  ((\<lambda>f. (strip (takeWhile (\<lambda>c. c \<noteq> CHR ''='') f),
                          strip (tl (dropWhile (\<lambda>c. c \<noteq> CHR ''='') f)))) part) outputs_dict
           else outputs_dict)"
  proof (intro ext)
    fix part :: string and outputs_dict :: "(string \<times> string) list"
    show "(let key_val = split_on CHR ''='' part
              in if length key_val = 2
                 then AList.update (strip (key_val ! 0)) (strip (key_val ! 1)) outputs_dict
                 else outputs_dict) =
        (if count_list part CHR ''='' = 1
           then (\<lambda>(k, v) d. AList.update k v d)
                  ((\<lambda>f. (strip (takeWhile (\<lambda>c. c \<noteq> CHR ''='') f),
                          strip (tl (dropWhile (\<lambda>c. c \<noteq> CHR ''='') f)))) part) outputs_dict
           else outputs_dict)"
    proof (cases "count_list part CHR ''='' = 1")
      case True
      then show ?thesis by (simp add: split_on_two Let_def)
    next
      case False
      then have "length (split_on CHR ''='' part) \<noteq> 2"
        by (simp add: length_split_on)
      then show ?thesis using False by (simp add: Let_def)
    qed
  qed
  show ?thesis
    unfolding parse_outputs_def step by (rule fold_filter_map)
qed

lemma fold_update_dict:
  "distinct (map fst (fold (\<lambda>(k, v) d. AList.update k v d) ps [])) \<and>
   map fst (fold (\<lambda>(k, v) d. AList.update k v d) ps []) = rev (remdups (rev (map fst ps))) \<and>
   map_of (fold (\<lambda>(k, v) d. AList.update k v d) ps []) = map_of (rev ps)"
proof (induction ps rule: rev_induct)
  case Nil
  show ?case by simp
next
  case (snoc p ps)
  obtain k v where p: "p = (k, v)" by (cases p)
  let ?D = "fold (\<lambda>(k, v) d. AList.update k v d) ps []"
  have f: "fold (\<lambda>(k, v) d. AList.update k v d) (ps @ [p]) [] = AList.update k v ?D"
    by (simp add: p)
  have keys: "set (map fst ?D) = set (map fst ps)"
    using snoc.IH by simp
  have d: "distinct (map fst (AList.update k v ?D))"
    using snoc.IH by (simp add: distinct_update)
  have o: "map fst (AList.update k v ?D) = rev (remdups (rev (map fst (ps @ [p]))))"
  proof (cases "k \<in> set (map fst ps)")
    case True
    then have "k \<in> set (map fst ?D)" using keys by simp
    then have "map fst (AList.update k v ?D) = map fst ?D" by (simp add: update_keys)
    then show ?thesis using snoc.IH True by (simp add: p)
  next
    case False
    then have "k \<notin> set (map fst ?D)" using keys by simp
    then have "map fst (AList.update k v ?D) = map fst ?D @ [k]" by (simp add: update_keys)
    then show ?thesis using snoc.IH False by (simp add: p)
  qed
  have m: "map_of (AList.update k v ?D) = map_of (rev (ps @ [p]))"
    using snoc.IH by (simp add: p update_conv')
  show ?case unfolding f using d o m by simp
qed

lemma extract_comment_text:
  "if CHR ''#'' \<in> set line
   then \<exists>pre post. line = pre @ ''#'' @ post \<and> CHR ''#'' \<notin> set pre \<and>
          extract_comment line = Some (strip post)
   else extract_comment line = None"
proof (cases "CHR ''#'' \<in> set line")
  case False
  then show ?thesis by (simp add: extract_comment_def)
next
  case True
  let ?pre = "takeWhile (\<lambda>c. c \<noteq> CHR ''#'') line"
  let ?d = "dropWhile (\<lambda>c. c \<noteq> CHR ''#'') line"
  have "?d \<noteq> []" using True by simp
  moreover have "hd ?d = CHR ''#''"
    using True hd_dropWhile [of "\<lambda>c. c \<noteq> CHR ''#''" line] by auto
  ultimately have dd: "?d = ''#'' @ tl ?d" by (cases ?d) auto
  have "line = ?pre @ ?d" by simp
  then have l: "line = ?pre @ ''#'' @ tl ?d" using dd by simp
  have n: "CHR ''#'' \<notin> set ?pre" by (auto dest: set_takeWhileD)
  have e: "extract_comment line = Some (strip (tl ?d))"
    using True by (simp add: extract_comment_def)
  from l n e have "\<exists>pre post. line = pre @ ''#'' @ post \<and> CHR ''#'' \<notin> set pre \<and>
          extract_comment line = Some (strip post)"
    by blast
  then show ?thesis using True by simp
qed

section \<open>Decoding what the encoder wrote\<close>

text \<open>
  The decoder reads back each character the encoder escaped, then each string, and by
  induction on the value each list and dictionary, provided the keys of every
  dictionary are distinct, as the keys of a Python dictionary are. The fuel is enough
  when it is at least the length of the text.
\<close>

lemma hex_val_hex_digit: "d < 16 \<Longrightarrow> hex_val (hex_digit d) = Some d"
proof (cases "d < 10")
  case True
  then have "(of_char (char_of (48 + d)) :: nat) = 48 + d"
    by (simp add: of_char_of)
  then show ?thesis using True by (simp add: hex_val_def hex_digit_def Let_def)
next
  case False
  assume "d < 16"
  then have "(of_char (char_of (87 + d)) :: nat) = 87 + d"
    by (simp add: of_char_of)
  then show ?thesis using False \<open>d < 16\<close> by (simp add: hex_val_def hex_digit_def Let_def)
qed

lemma decode_hex4:
  assumes "n < 256"
  shows "decode_uXXXX (hex_digit (n div 4096 mod 16)) (hex_digit (n div 256 mod 16))
           (hex_digit (n div 16 mod 16)) (hex_digit (n mod 16)) = Some n"
proof -
  have a: "n div 4096 mod 16 = 0" using assms by simp
  have b: "n div 256 mod 16 = 0" using assms by simp
  have c: "n div 16 mod 16 = n div 16"
  proof -
    have "n div 16 < 16" using assms by (simp add: div_less_iff_less_mult)
    then show ?thesis by simp
  qed
  have d: "n mod 16 < 16" by simp
  have c': "n div 16 < 16" using assms by (simp add: div_less_iff_less_mult)
  have z: "(0::nat) < 16" by simp
  have "16 * (n div 16) + n mod 16 = n" by simp
  then show ?thesis
    unfolding decode_uXXXX_def a b c
    by (simp add: hex_val_hex_digit [OF z] hex_val_hex_digit [OF c'] hex_val_hex_digit [OF d])
qed

lemma of_char_lt_256: "(of_char (c::char) :: nat) < 256"
  by (rule of_char_mod_256 [THEN subst]) simp

lemma scanstring_u:
  "decode_uXXXX h1 h2 h3 h4 = Some n \<Longrightarrow> n < 256 \<Longrightarrow>
   scanstring acc (backslash # CHR ''u'' # h1 # h2 # h3 # h4 # rest) =
   scanstring (acc @ [char_of n]) rest"
  by (simp add: backslash_def dquote_def)

lemma scanstring_encode_char:
  "scanstring acc (encode_char c @ rest) = scanstring (acc @ [c]) rest"
proof -
  consider (short) "c \<in> {backslash, dquote, CHR 0x08, CHR 0x0C, CHR 0x0A, CHR 0x0D, CHR 0x09}"
    | (plain) "c \<notin> {backslash, dquote, CHR 0x08, CHR 0x0C, CHR 0x0A, CHR 0x0D, CHR 0x09}"
        "32 \<le> (of_char c :: nat) \<and> (of_char c :: nat) \<le> 126"
    | (uni) "c \<notin> {backslash, dquote, CHR 0x08, CHR 0x0C, CHR 0x0A, CHR 0x0D, CHR 0x09}"
        "\<not> (32 \<le> (of_char c :: nat) \<and> (of_char c :: nat) \<le> 126)"
    by blast
  then show ?thesis
  proof cases
    case short
    then show ?thesis
      by (auto simp: encode_char_def backslash_table_def dquote_def backslash_def)
  next
    case plain
    then have e: "encode_char c = [c]"
      by (simp add: encode_char_def)
    have "\<not> (of_char c :: nat) < 32" using plain(2) by simp
    then show ?thesis using plain(1) by (simp add: e)
  next
    case uni
    let ?n = "of_char c :: nat"
    have e: "encode_char c =
        [backslash, CHR ''u'', hex_digit (?n div 4096 mod 16), hex_digit (?n div 256 mod 16),
         hex_digit (?n div 16 mod 16), hex_digit (?n mod 16)]"
      using uni by (simp add: encode_char_def hex4_def)
    have d: "decode_uXXXX (hex_digit (?n div 4096 mod 16)) (hex_digit (?n div 256 mod 16))
           (hex_digit (?n div 16 mod 16)) (hex_digit (?n mod 16)) = Some ?n"
      by (rule decode_hex4) (rule of_char_lt_256)
    have "scanstring acc (encode_char c @ rest) =
          scanstring (acc @ [char_of ?n]) rest"
      unfolding e append_Cons append_Nil
      by (rule scanstring_u [OF d]) (rule of_char_lt_256)
    then show ?thesis by simp
  qed
qed

lemma scanstring_body:
  "scanstring acc (concat (map encode_char s) @ dquote # rest) = Inr (acc @ s, rest)"
proof (induction s arbitrary: acc)
  case Nil
  then show ?case by simp
next
  case (Cons c s)
  have "scanstring acc (concat (map encode_char (c # s)) @ dquote # rest) =
        scanstring acc (encode_char c @ (concat (map encode_char s) @ dquote # rest))"
    by simp
  also have "\<dots> = scanstring (acc @ [c]) (concat (map encode_char s) @ dquote # rest)"
    by (rule scanstring_encode_char)
  also have "\<dots> = Inr ((acc @ [c]) @ s, rest)"
    by (rule Cons.IH)
  finally show ?case by simp
qed

lemma scanstring_basestring:
  "encode_basestring_ascii s @ rest = dquote # t \<Longrightarrow> scanstring [] t = Inr (s, rest)"
  using scanstring_body [of "[]" s rest] by (simp add: encode_basestring_ascii_def)

lemma skip_ws_newline_indent: "skip_ws (newline_indent l @ s) = skip_ws s"
proof -
  have "dropWhile json_ws (replicate n CHR '' '' @ s) = dropWhile json_ws s" for n
    by (induction n) (simp_all add: json_ws_def)
  then show ?thesis
    by (simp add: skip_ws_def newline_indent_def json_ws_def)
qed

lemma skip_ws_no_ws: "\<not> json_ws c \<Longrightarrow> skip_ws (c # s) = c # s"
  by (simp add: skip_ws_def)

lemma basestring_Cons:
  "encode_basestring_ascii s = dquote # concat (map encode_char s) @ [dquote]"
  by (simp add: encode_basestring_ascii_def)

lemma dquote_no_ws: "\<not> json_ws dquote"
  by (simp add: json_ws_def dquote_def)

lemma iterencode_starts: "\<exists>c cs. iterencode level v = c # cs \<and> \<not> json_ws c"
proof (cases v)
  case PyNone
  then show ?thesis by (simp add: json_ws_def)
next
  case (PyStr s)
  then show ?thesis by (simp add: basestring_Cons dquote_no_ws)
next
  case (PyList lst)
  then show ?thesis by (simp add: json_ws_def)
next
  case (PyDict dct)
  then show ?thesis by (simp add: json_ws_def)
qed

lemma skip_ws_iterencode: "skip_ws (iterencode level v @ r) = iterencode level v @ r"
proof -
  obtain c cs where "iterencode level v = c # cs" "\<not> json_ws c"
    using iterencode_starts by blast
  then show ?thesis by (simp add: skip_ws_def)
qed

lemma iterencode_list_Cons:
  "vs \<noteq> [] \<Longrightarrow>
   iterencode_list level (v # vs) =
   iterencode level v @ '','' @ newline_indent level @ iterencode_list level vs"
  by (cases vs) simp_all

lemma iterencode_dict_Cons:
  "kvs \<noteq> [] \<Longrightarrow>
   iterencode_dict level ((k, v) # kvs) =
   encode_basestring_ascii k @ '': '' @ iterencode level v
   @ '','' @ newline_indent level @ iterencode_dict level kvs"
  by (cases kvs) simp_all

lemma skip_ws_iterencode_list:
  "vs \<noteq> [] \<Longrightarrow> skip_ws (iterencode_list level vs @ r) = iterencode_list level vs @ r"
proof (cases vs)
  case Nil
  assume "vs \<noteq> []"
  then show ?thesis using Nil by simp
next
  case (Cons v ws)
  show ?thesis
  proof (cases "ws = []")
    case True
    then show ?thesis using Cons by (simp add: skip_ws_iterencode)
  next
    case False
    have "skip_ws (iterencode level v @ ('','' @ newline_indent level @ iterencode_list level ws @ r))
          = iterencode level v @ ('','' @ newline_indent level @ iterencode_list level ws @ r)"
      by (rule skip_ws_iterencode)
    then show ?thesis using Cons False by (simp add: iterencode_list_Cons)
  qed
qed

lemma iterencode_dict_starts:
  "kvs \<noteq> [] \<Longrightarrow> \<exists>t. iterencode_dict level kvs = dquote # t"
proof (cases kvs)
  case Nil
  assume "kvs \<noteq> []"
  then show ?thesis using Nil by simp
next
  case (Cons kv ws)
  obtain k v where kv: "kv = (k, v)" by (cases kv)
  show ?thesis
  proof (cases "ws = []")
    case True
    then show ?thesis using Cons kv by (simp add: basestring_Cons)
  next
    case False
    then show ?thesis using Cons kv by (simp add: iterencode_dict_Cons basestring_Cons)
  qed
qed

lemma array_loop_ok:
  assumes "vs \<noteq> []"
    and "\<And>v r. v \<in> set vs \<Longrightarrow> scan (iterencode level v @ r) = Inr (v, r)"
    and "length vs \<le> m"
  shows "array_loop m scan vals
           (iterencode_list level vs @ newline_indent l @ CHR '']'' # rest) =
         Inr (PyList (vals @ vs), rest)"
  using assms
proof (induction vs arbitrary: m vals rule: list_nonempty_induct)
  case (single v)
  then obtain m' where m: "m = Suc m'" by (cases m) auto
  have s: "scan (iterencode level v @ (newline_indent l @ CHR '']'' # rest)) =
           Inr (v, newline_indent l @ CHR '']'' # rest)"
    by (rule single.prems(1)) simp
  have w: "skip_ws (newline_indent l @ CHR '']'' # rest) = CHR '']'' # rest"
    by (simp add: skip_ws_newline_indent skip_ws_no_ws json_ws_def)
  show ?case
    unfolding m by (simp add: s w)
next
  case (cons v vs)
  then obtain m' where m: "m = Suc m'" by (cases m) auto
  let ?tail = "iterencode_list level vs @ newline_indent l @ CHR '']'' # rest"
  have enc: "iterencode_list level (v # vs) @ newline_indent l @ CHR '']'' # rest =
             iterencode level v @ (CHR '','' # newline_indent level @ ?tail)"
    using cons.hyps(1) by (simp add: iterencode_list_Cons)
  have s: "scan (iterencode level v @ (CHR '','' # newline_indent level @ ?tail)) =
           Inr (v, CHR '','' # newline_indent level @ ?tail)"
    by (rule cons.prems(1)) simp
  have w1: "skip_ws (CHR '','' # newline_indent level @ ?tail) =
            CHR '','' # newline_indent level @ ?tail"
    by (simp add: skip_ws_no_ws json_ws_def)
  have w2: "skip_ws (newline_indent level @ ?tail) = ?tail"
    using skip_ws_iterencode_list [OF cons.hyps(1)] by (simp add: skip_ws_newline_indent)
  have ih: "array_loop m' scan (vals @ [v]) ?tail = Inr (PyList ((vals @ [v]) @ vs), rest)"
  proof (rule cons.IH)
    show "scan (iterencode level u @ r) = Inr (u, r)" if "u \<in> set vs" for u r
      using that by (intro cons.prems(1)) simp
    show "length vs \<le> m'" using cons.prems(2) m by simp
  qed
  show ?case
    unfolding m enc by (simp add: s w1 w2 ih)
qed

lemma object_loop_ok:
  assumes "kvs \<noteq> []"
    and "\<And>k v r. (k, v) \<in> set kvs \<Longrightarrow> scan (iterencode level v @ r) = Inr (v, r)"
    and "length kvs \<le> m"
    and "iterencode_dict level kvs = dquote # t"
  shows "object_loop m scan pairs (t @ newline_indent l @ CHR ''}'' # rest) =
         Inr (PyDict (dict_of_pairs (pairs @ kvs)), rest)"
  using assms
proof (induction kvs arbitrary: m pairs t rule: list_nonempty_induct)
  case (single kv)
  obtain k v where kv: "kv = (k, v)" by (cases kv)
  obtain m' where m: "m = Suc m'" using single.prems(2) by (cases m) auto
  let ?after = "newline_indent l @ CHR ''}'' # rest"
  have t: "t = concat (map encode_char k) @ dquote # (CHR '':'' # CHR '' '' # iterencode level v)"
    using single.prems(3) by (simp add: kv basestring_Cons)
  have key: "scanstring [] (t @ ?after) =
             Inr (k, CHR '':'' # CHR '' '' # iterencode level v @ ?after)"
    unfolding t using scanstring_body [of "[]" k] by simp
  have w0: "skip_ws (CHR '':'' # CHR '' '' # iterencode level v @ ?after) =
            CHR '':'' # CHR '' '' # iterencode level v @ ?after"
    by (simp add: skip_ws_no_ws json_ws_def)
  have w1: "skip_ws (CHR '' '' # iterencode level v @ ?after) = iterencode level v @ ?after"
    using skip_ws_iterencode [of level v ?after] by (simp add: skip_ws_def json_ws_def)
  have s: "scan (iterencode level v @ ?after) = Inr (v, ?after)"
    by (rule single.prems(1) [of k]) (simp add: kv)
  have w2: "skip_ws ?after = CHR ''}'' # rest"
    by (simp add: skip_ws_newline_indent skip_ws_no_ws json_ws_def)
  show ?case
    unfolding m by (simp add: key w0 w1 s w2 kv)
next
  case (cons kv kvs)
  obtain k v where kv: "kv = (k, v)" by (cases kv)
  obtain m' where m: "m = Suc m'" using cons.prems(2) by (cases m) auto
  obtain t' where t': "iterencode_dict level kvs = dquote # t'"
    using iterencode_dict_starts [OF cons.hyps(1)] by blast
  let ?after = "newline_indent l @ CHR ''}'' # rest"
  let ?next = "CHR '','' # newline_indent level @ dquote # t' @ ?after"
  have t: "t = concat (map encode_char k) @ dquote #
               (CHR '':'' # CHR '' '' # iterencode level v
                @ CHR '','' # newline_indent level @ dquote # t')"
    using cons.prems(3) cons.hyps(1) by (simp add: kv iterencode_dict_Cons basestring_Cons t')
  have key: "scanstring [] (t @ ?after) =
             Inr (k, CHR '':'' # CHR '' '' # iterencode level v @ ?next)"
    unfolding t using scanstring_body [of "[]" k] by simp
  have w0: "skip_ws (CHR '':'' # CHR '' '' # iterencode level v @ ?next) =
            CHR '':'' # CHR '' '' # iterencode level v @ ?next"
    by (simp add: skip_ws_no_ws json_ws_def)
  have w1: "skip_ws (CHR '' '' # iterencode level v @ ?next) = iterencode level v @ ?next"
    using skip_ws_iterencode [of level v ?next] by (simp add: skip_ws_def json_ws_def)
  have s: "scan (iterencode level v @ ?next) = Inr (v, ?next)"
    by (rule cons.prems(1) [of k]) (simp add: kv)
  have w2: "skip_ws ?next = ?next"
    by (simp add: skip_ws_no_ws json_ws_def)
  have w3: "skip_ws (newline_indent level @ dquote # t' @ ?after) = dquote # t' @ ?after"
    by (simp add: skip_ws_newline_indent skip_ws_no_ws dquote_no_ws)
  have ih: "object_loop m' scan (pairs @ [(k, v)]) (t' @ ?after) =
            Inr (PyDict (dict_of_pairs ((pairs @ [(k, v)]) @ kvs)), rest)"
  proof (rule cons.IH)
    show "scan (iterencode level u @ r) = Inr (u, r)" if "(j, u) \<in> set kvs" for j u r
      using that by (intro cons.prems(1) [of j]) simp
    show "length kvs \<le> m'" using cons.prems(2) m by simp
    show "iterencode_dict level kvs = dquote # t'" by (rule t')
  qed
  have c: "CHR '','' \<noteq> CHR ''}''" by simp
  show ?case
    unfolding m by (simp add: key w0 w1 s w2 w3 ih kv)
qed

lemma unique_keys_list_mem: "unique_keys_list vs \<Longrightarrow> v \<in> set vs \<Longrightarrow> unique_keys v"
  by (induction vs) auto

lemma unique_keys_dict_mem: "unique_keys_dict kvs \<Longrightarrow> (k, v) \<in> set kvs \<Longrightarrow> unique_keys v"
  by (induction kvs) auto

lemma fold_update_distinct:
  "distinct (map fst (acc @ ps)) \<Longrightarrow>
   fold (\<lambda>(k, v) d. AList.update k v d) ps acc = acc @ ps"
proof (induction ps arbitrary: acc)
  case Nil
  then show ?case by simp
next
  case (Cons p ps)
  obtain k v where p: "p = (k, v)" by (cases p)
  have notin: "k \<notin> set (map fst acc)" using Cons.prems p by auto
  have upd: "AList.update k v acc = acc @ [(k, v)]"
    using notin by (induction acc) auto
  have "distinct (map fst ((acc @ [(k, v)]) @ ps))" using Cons.prems p by simp
  then have "fold (\<lambda>(k, v) d. AList.update k v d) ps (acc @ [(k, v)]) = (acc @ [(k, v)]) @ ps"
    by (rule Cons.IH)
  then show ?case by (simp add: p upd)
qed

lemma dict_of_pairs_distinct: "distinct (map fst ps) \<Longrightarrow> dict_of_pairs ps = ps"
  using fold_update_distinct [of "[]" ps] by (simp add: dict_of_pairs_def)

lemma iterencode_first:
  "\<exists>c cs. iterencode level v = c # cs \<and> \<not> json_ws c \<and> c \<noteq> CHR '']'' \<and> c \<noteq> CHR ''}''"
proof (cases v)
  case PyNone
  then show ?thesis by (simp add: json_ws_def)
next
  case (PyStr s)
  then show ?thesis by (simp add: basestring_Cons json_ws_def dquote_def)
next
  case (PyList lst)
  then show ?thesis by (simp add: json_ws_def)
next
  case (PyDict dct)
  then show ?thesis by (simp add: json_ws_def)
qed

lemma iterencode_nonempty: "1 \<le> length (iterencode level v)"
  using iterencode_first [of level v] by auto

lemma iterencode_list_first:
  assumes "vs \<noteq> []"
  shows "\<exists>c cs. iterencode_list level vs = c # cs \<and> \<not> json_ws c \<and> c \<noteq> CHR '']''"
proof -
  obtain v ws where vs: "vs = v # ws" using assms by (cases vs) auto
  obtain c cs where c: "iterencode level v = c # cs" "\<not> json_ws c" "c \<noteq> CHR '']''"
    using iterencode_first [of level v] by blast
  show ?thesis
  proof (cases "ws = []")
    case True
    then show ?thesis using vs c by simp
  next
    case False
    then show ?thesis using vs c by (simp add: iterencode_list_Cons)
  qed
qed

lemma length_iterencode_list:
  "length vs \<le> length (iterencode_list level vs) \<and>
   (\<forall>v \<in> set vs. length (iterencode level v) \<le> length (iterencode_list level vs))"
proof (induction vs)
  case Nil
  then show ?case by simp
next
  case (Cons v vs)
  show ?case
  proof (cases "vs = []")
    case True
    then show ?thesis using iterencode_nonempty [of level v] by simp
  next
    case False
    then show ?thesis
      using Cons.IH iterencode_nonempty [of level v]
      by (auto simp: iterencode_list_Cons)
  qed
qed

lemma length_iterencode_dict:
  "length kvs \<le> length (iterencode_dict level kvs) \<and>
   (\<forall>kv \<in> set kvs. length (iterencode level (snd kv)) \<le> length (iterencode_dict level kvs))"
proof (induction kvs)
  case Nil
  then show ?case by simp
next
  case (Cons kv kvs)
  obtain k v where kv: "kv = (k, v)" by (cases kv)
  show ?case
  proof (cases "kvs = []")
    case True
    then show ?thesis using iterencode_nonempty [of level v] by (simp add: kv)
  next
    case False
    then show ?thesis
      using Cons.IH iterencode_nonempty [of level v]
      by (auto simp: iterencode_dict_Cons kv)
  qed
qed

lemma scan_once_iterencode:
  "unique_keys v \<Longrightarrow> length (iterencode level v) \<le> n \<Longrightarrow>
   scan_once (Suc n) (iterencode level v @ rest) = Inr (v, rest)"
proof (induction v arbitrary: level n rest)
  case PyNone
  then show ?case by (simp add: scan_value_def dquote_def)
next
  case (PyStr s)
  have "scanstring [] (concat (map encode_char s) @ dquote # rest) = Inr (s, rest)"
    using scanstring_body [of "[]" s rest] by simp
  then show ?case by (simp add: scan_value_def basestring_Cons)
next
  case (PyList lst)
  show ?case
  proof (cases "lst = []")
    case True
    then show ?thesis
      by (simp add: scan_value_def json_array_def dquote_def skip_ws_no_ws json_ws_def)
  next
    case False
    let ?items = "iterencode_list (Suc level) lst"
    let ?after = "newline_indent level @ CHR '']'' # rest"
    have len: "length ?items + 2 \<le> n"
      using PyList.prems(2) False by (simp add: newline_indent_def)
    obtain n' where n: "n = Suc n'" using len by (cases n) auto
    obtain c cs where c: "?items = c # cs" "\<not> json_ws c" "c \<noteq> CHR '']''"
      using iterencode_list_first [OF False] by blast
    have w: "skip_ws (newline_indent (Suc level) @ ?items @ ?after) = ?items @ ?after"
      using skip_ws_iterencode_list [OF False] by (simp add: skip_ws_newline_indent)
    have scan: "scan_once n (iterencode (Suc level) u @ r) = Inr (u, r)" if "u \<in> set lst" for u r
      unfolding n
    proof (rule PyList.IH [OF that])
      show "unique_keys u"
        using PyList.prems(1) that by (simp add: unique_keys_list_mem)
      have "length (iterencode (Suc level) u) \<le> length ?items"
        using length_iterencode_list [of lst "Suc level"] that by blast
      then show "length (iterencode (Suc level) u) \<le> n'" using len n by simp
    qed
    have fuel: "length lst \<le> n"
      using length_iterencode_list [of lst "Suc level"] len by simp
    have loop: "array_loop n (scan_once n) [] (?items @ ?after) = Inr (PyList ([] @ lst), rest)"
      using False scan fuel by (rule array_loop_ok)
    have arr: "json_array n (scan_once n) (newline_indent (Suc level) @ ?items @ ?after) =
               Inr (PyList lst, rest)"
      unfolding json_array_def w using loop c by simp
    have enc: "iterencode level (PyList lst) @ rest =
               CHR ''['' # (newline_indent (Suc level) @ ?items @ ?after)"
      using False by simp
    show ?thesis
      unfolding enc by (simp add: scan_value_def dquote_def arr)
  qed
next
  case (PyDict dct)
  show ?case
  proof (cases "dct = []")
    case True
    then show ?thesis
      by (simp add: scan_value_def json_object_def dquote_def skip_ws_no_ws json_ws_def)
  next
    case False
    let ?items = "iterencode_dict (Suc level) dct"
    let ?after = "newline_indent level @ CHR ''}'' # rest"
    have len: "length ?items + 2 \<le> n"
      using PyDict.prems(2) False by (simp add: newline_indent_def)
    obtain n' where n: "n = Suc n'" using len by (cases n) auto
    obtain t where t: "?items = dquote # t"
      using iterencode_dict_starts [OF False] by blast
    have w: "skip_ws (newline_indent (Suc level) @ ?items @ ?after) = dquote # t @ ?after"
      by (simp add: skip_ws_newline_indent t skip_ws_no_ws dquote_no_ws)
    have scan: "scan_once n (iterencode (Suc level) u @ r) = Inr (u, r)"
      if "(k, u) \<in> set dct" for k u r
      unfolding n
    proof (rule PyDict.IH [OF that])
      show "u \<in> Basic_BNFs.snds (k, u)" by simp
      show "unique_keys u"
        using PyDict.prems(1) that by (auto dest: unique_keys_dict_mem)
      have "length (iterencode (Suc level) (snd (k, u))) \<le> length ?items"
        using length_iterencode_dict [of dct "Suc level"] that by blast
      then show "length (iterencode (Suc level) u) \<le> n'" using len n by simp
    qed
    have fuel: "length dct \<le> n"
      using length_iterencode_dict [of dct "Suc level"] len by simp
    have dist: "distinct (map fst dct)" using PyDict.prems(1) by simp
    have loop: "object_loop n (scan_once n) [] (t @ ?after) =
                Inr (PyDict (dict_of_pairs ([] @ dct)), rest)"
      using False scan fuel t by (rule object_loop_ok)
    have obj: "json_object n (scan_once n) (newline_indent (Suc level) @ ?items @ ?after) =
               Inr (PyDict dct, rest)"
      unfolding json_object_def w using loop dist
      by (simp add: dict_of_pairs_distinct dquote_def)
    have enc: "iterencode level (PyDict dct) @ rest =
               CHR ''{'' # (newline_indent (Suc level) @ ?items @ ?after)"
      using False by simp
    show ?thesis
      unfolding enc by (simp add: scan_value_def dquote_def obj)
  qed
qed

lemma json_loads_dumps: "unique_keys v \<Longrightarrow> json_loads (json_dumps v) = Inr v"
proof -
  assume u: "unique_keys v"
  have w: "skip_ws (iterencode 0 v) = iterencode 0 v"
    using skip_ws_iterencode [of 0 v "[]"] by simp
  have e: "skip_ws [] = []" by (simp add: skip_ws_def)
  have "scan_once (Suc (length (iterencode 0 v))) (iterencode 0 v @ []) = Inr (v, [])"
    using u by (rule scan_once_iterencode) simp
  then show ?thesis
    by (simp add: json_loads_def json_dumps_def w e)
qed

lemma unique_keys_list_all: "(\<And>v. v \<in> set vs \<Longrightarrow> unique_keys v) \<Longrightarrow> unique_keys_list vs"
  by (induction vs) auto

lemma unique_keys_dict_all:
  "(\<And>k v. (k, v) \<in> set kvs \<Longrightarrow> unique_keys v) \<Longrightarrow> unique_keys_dict kvs"
proof (induction kvs)
  case Nil
  then show ?case by simp
next
  case (Cons kv kvs)
  obtain k v where kv: "kv = (k, v)" by (cases kv)
  have "unique_keys v" using Cons.prems [of k v] kv by simp
  moreover have "unique_keys_dict kvs"
  proof (rule Cons.IH)
    fix j u
    assume "(j, u) \<in> set kvs"
    then show "unique_keys u" using Cons.prems [of j u] by simp
  qed
  ultimately show ?case by (simp add: kv)
qed

lemma fst_comp_pair: "fst \<circ> (\<lambda>(k, v). (k, f v)) = fst"
  by (auto simp: fun_eq_iff)

lemma map_fst_pair: "map fst (map (\<lambda>(k, v). (k, f v)) xs) = map fst xs"
  by (simp add: fst_comp_pair)

lemma unique_keys_strings: "distinct (map fst xs) \<Longrightarrow>
  unique_keys (PyDict (map (\<lambda>(k, v). (k, PyStr v)) xs))"
  by (auto simp: fst_comp_pair intro!: unique_keys_dict_all)

lemma unique_keys_comment: "unique_keys (comment_value c)"
  by (cases c) (simp_all add: comment_value_def)

lemma unique_keys_str_list: "unique_keys (PyList (map PyStr xs))"
  by (auto intro!: unique_keys_list_all)

lemma unique_keys_transition: "unique_keys (transition_value t)"
  by (simp add: transition_value_def unique_keys_comment)

lemma unique_keys_global_transition: "unique_keys (global_transition_value g)"
  using unique_keys_str_list [of "g_actions g"]
  by (simp add: global_transition_value_def unique_keys_comment)

lemma unique_keys_state:
  assumes "distinct (map fst (outputs r))"
  shows "unique_keys (state_value r)"
proof -
  have a: "unique_keys (PyDict (map (\<lambda>(k, v). (k, PyStr v)) (outputs r)))"
    using assms by (rule unique_keys_strings)
  have b: "unique_keys (PyList (map transition_value (transitions r)))"
    by (auto intro!: unique_keys_list_all simp: unique_keys_transition)
  show ?thesis
    using a b unique_keys_comment [of "s_comment r"] by (simp add: state_value_def)
qed

lemma unique_keys_document:
  assumes "distinct (map fst (header d))"
    and "distinct (map fst (states d))"
    and "list_all (\<lambda>(n, r). distinct (map fst (outputs r))) (states d)"
  shows "unique_keys (document_value d)"
proof -
  have a: "unique_keys (PyDict (map (\<lambda>(k, v). (k, PyStr v)) (header d)))"
    using assms(1) by (rule unique_keys_strings)
  have b: "unique_keys (PyList (map PyStr (assumptions d)))"
    by (rule unique_keys_str_list)
  have c: "unique_keys (PyList (map global_transition_value (global_transitions d)))"
    by (auto intro!: unique_keys_list_all simp: unique_keys_global_transition)
  have "unique_keys v" if "(k, v) \<in> set (map (\<lambda>(n, r). (n, state_value r)) (states d))" for k v
  proof -
    from that obtain x where x: "x \<in> set (states d)"
        "(k, v) = (\<lambda>(n, r). (n, state_value r)) x"
      by auto
    obtain n r where nr: "x = (n, r)" by (cases x)
    have r: "(k, r) \<in> set (states d)" "v = state_value r"
      using x nr by simp_all
    then have "distinct (map fst (outputs r))"
      using assms(3) by (auto simp: list_all_iff)
    then show ?thesis using r(2) by (simp add: unique_keys_state)
  qed
  then have "unique_keys_dict (map (\<lambda>(n, r). (n, state_value r)) (states d))"
    by (rule unique_keys_dict_all)
  then have e: "unique_keys (PyDict (map (\<lambda>(n, r). (n, state_value r)) (states d)))"
    using assms(2) by (simp add: fst_comp_pair)
  show ?thesis
    using a b c e by (simp add: document_value_def)
qed

lemma comment_value_inj: "comment_value a = comment_value b \<Longrightarrow> a = b"
  by (cases a; cases b) (simp_all add: comment_value_def)

lemma map_PyStr_inj: "map PyStr xs = map PyStr ys \<Longrightarrow> xs = ys"
  by (simp add: inj_map_eq_map inj_on_def)

lemma map_pair_inj:
  assumes "\<And>a b. f a = f b \<Longrightarrow> a = b"
  shows "map (\<lambda>(k, v). (k, f v)) xs = map (\<lambda>(k, v). (k, f v)) ys \<Longrightarrow> xs = ys"
proof (induction xs arbitrary: ys)
  case Nil
  then show ?case by simp
next
  case (Cons x xs)
  then obtain y ys' where ys: "ys = y # ys'" by (cases ys) auto
  obtain k v where x: "x = (k, v)" by (cases x)
  obtain j u where y: "y = (j, u)" by (cases y)
  have "k = j" and "f v = f u" and "map (\<lambda>(k, v). (k, f v)) xs = map (\<lambda>(k, v). (k, f v)) ys'"
    using Cons.prems ys x y by simp_all
  then show ?case using Cons.IH [of ys'] assms [of v u] ys x y by simp
qed

lemma map_inj:
  assumes "\<And>a b. f a = f b \<Longrightarrow> a = b"
  shows "map f xs = map f ys \<Longrightarrow> xs = ys"
  using assms by (simp add: inj_map_eq_map inj_on_def)

lemma PyStr_inj: "PyStr a = PyStr b \<Longrightarrow> a = b"
  by simp

lemma transition_value_inj: "transition_value a = transition_value b \<Longrightarrow> a = b"
  by (cases a; cases b) (auto simp: transition_value_def dest: comment_value_inj)

lemma global_transition_value_inj:
  "global_transition_value a = global_transition_value b \<Longrightarrow> a = b"
  by (cases a; cases b)
    (auto simp: global_transition_value_def dest: comment_value_inj map_PyStr_inj)

lemma state_value_inj: "state_value a = state_value b \<Longrightarrow> a = b"
proof -
  assume e: "state_value a = state_value b"
  then have o: "map (\<lambda>(k, v). (k, PyStr v)) (outputs a) = map (\<lambda>(k, v). (k, PyStr v)) (outputs b)"
    and c: "comment_value (s_comment a) = comment_value (s_comment b)"
    and t: "map transition_value (transitions a) = map transition_value (transitions b)"
    by (simp_all add: state_value_def)
  have "outputs a = outputs b" using PyStr_inj o by (rule map_pair_inj)
  moreover have "s_comment a = s_comment b" using c by (rule comment_value_inj)
  moreover have "transitions a = transitions b" using transition_value_inj t by (rule map_inj)
  ultimately show ?thesis by (cases a; cases b) simp
qed

lemma document_value_inj: "document_value a = document_value b \<Longrightarrow> a = b"
proof -
  assume e: "document_value a = document_value b"
  then have h: "map (\<lambda>(k, v). (k, PyStr v)) (header a) = map (\<lambda>(k, v). (k, PyStr v)) (header b)"
    and s: "map PyStr (assumptions a) = map PyStr (assumptions b)"
    and g: "map global_transition_value (global_transitions a) =
            map global_transition_value (global_transitions b)"
    and t: "map (\<lambda>(n, r). (n, state_value r)) (states a) =
            map (\<lambda>(n, r). (n, state_value r)) (states b)"
    by (simp_all add: document_value_def)
  have "header a = header b" using PyStr_inj h by (rule map_pair_inj)
  moreover have "assumptions a = assumptions b" using s by (rule map_PyStr_inj)
  moreover have "global_transitions a = global_transitions b"
    using global_transition_value_inj g by (rule map_inj)
  moreover have "states a = states b" using state_value_inj t by (rule map_pair_inj)
  ultimately show ?thesis by (cases a; cases b) simp
qed

text \<open>The text that \<^verbatim>\<open>save\<close> writes for the empty document.\<close>

lemma json_dumps_initial_structure:
  "json_dumps (document_value get_initial_structure) =
     ''{'' @ newline @
     ''  '' @ [dquote] @ ''header'' @ [dquote] @ '': {},'' @ newline @
     ''  '' @ [dquote] @ ''assumptions'' @ [dquote] @ '': [],'' @ newline @
     ''  '' @ [dquote] @ ''global_transitions'' @ [dquote] @ '': [],'' @ newline @
     ''  '' @ [dquote] @ ''states'' @ [dquote] @ '': {}'' @ newline @
     ''}''"
  by code_simp

section \<open>Where the code raises\<close>

text \<open>
  The parser raises nothing but an AttributeError, and only on a line that matches a
  transition pattern without its optional clause. With the clause, a line of the
  TRANSITIONS section is appended to the active source state if the states hold it and
  dropped otherwise, and before any \<^verbatim>\<open>FROM\<close> every line is dropped. The comment check
  raises as soon as a state has no comment; where every state and transition has
  one, it appends the notices in the order of the states.
\<close>

lemma parse_global_transition_error:
  "parse_global_transition line p = Inl e \<longleftrightarrow>
   e = AttributeError \<and> (\<exists>event target. re_search global_pattern line = Some (event, None, target))"
  by (auto simp: parse_global_transition_def split: option.splits prod.splits)

lemma parse_transitions_item_error:
  "parse_transitions_item line p = Inl e \<longleftrightarrow>
   e = AttributeError \<and> from_pattern line = None \<and>
   (\<exists>from_state. current_from_state p = Some from_state \<and> from_state \<noteq> []) \<and>
   (\<exists>event target. re_search transition_pattern line = Some (event, None, target))"
  by (auto simp: parse_transitions_item_def Let_def split: option.splits prod.splits if_splits)

lemma parse_line_error:
  assumes "parse_line raw p = Inl e"
  shows "e = AttributeError \<and>
         ((current_section p = Some ''GLOBAL_TRANSITIONS'' \<and>
           (\<exists>event target. re_search global_pattern (strip raw) = Some (event, None, target))) \<or>
          (current_section p = Some ''TRANSITIONS'' \<and>
           (\<exists>event target. re_search transition_pattern (strip raw) = Some (event, None, target))))"
proof -
  have "parse_line_in_section (strip raw) p = Inl e"
    using assms by (simp add: parse_line_def Let_def split: if_splits)
  then consider
    (g) "current_section p = Some ''GLOBAL_TRANSITIONS''"
        "parse_global_transition (strip raw) p = Inl e"
    | (t) "current_section p = Some ''TRANSITIONS''"
        "parse_transitions_item (strip raw) p = Inl e"
    by (auto simp: parse_line_in_section_def split: if_splits)
  then show ?thesis
  proof cases
    case g
    then show ?thesis using parse_global_transition_error [of "strip raw" p e] by blast
  next
    case t
    then show ?thesis using parse_transitions_item_error [of "strip raw" p e] by blast
  qed
qed

lemma parse_lines_error: "parse_lines ls p = Inl e \<Longrightarrow> e = AttributeError"
proof (induction ls arbitrary: p)
  case Nil
  then show ?case by simp
next
  case (Cons raw ls)
  show ?case
  proof (cases "parse_line raw p")
    case (Inl e')
    then have "e' = e" using Cons.prems by simp
    then show ?thesis using parse_line_error [of raw p e] Inl by simp
  next
    case (Inr p')
    then have "parse_lines ls p' = Inl e" using Cons.prems by simp
    then show ?thesis by (rule Cons.IH)
  qed
qed

lemma parse_text_error: "parse_text dsl_text d = Inl e \<Longrightarrow> e = AttributeError"
proof -
  assume "parse_text dsl_text d = Inl e"
  then have "parse_lines (lines (dsl_parser dsl_text d)) (dsl_parser dsl_text d) = Inl e"
    by (cases "parse (dsl_parser dsl_text d)") (simp_all add: parse_text_def parse_def)
  then show ?thesis by (rule parse_lines_error)
qed

lemma parse_transitions_item_with_condition:
  assumes "from_pattern line = None"
    and "current_from_state p = Some from_state" and "from_state \<noteq> []"
    and "re_search transition_pattern line = Some (event, Some c, target)"
  shows "parse_transitions_item line p =
         Inr (case map_of (states (sm p)) from_state of
                None \<Rightarrow> p
              | Some state_data \<Rightarrow>
                  p\<lparr>sm := (sm p)\<lparr>states :=
                    AList.update from_state
                      (state_data\<lparr>transitions := transitions state_data @
                         [\<lparr>t_event = upper event, t_condition = strip c,
                           t_target = upper target, t_comment = extract_comment line\<rparr>]\<rparr>)
                      (states (sm p))\<rparr>\<rparr>)"
  using assms by (simp add: parse_transitions_item_def Let_def split: option.splits)

lemma parse_transitions_item_before_from:
  "from_pattern line = None \<Longrightarrow> current_from_state p = None \<Longrightarrow>
   parse_transitions_item line p = Inr p"
  by (simp add: parse_transitions_item_def)

lemma hint_transitions_with_comments:
  "list_all (\<lambda>t. t_comment t \<noteq> None) ts \<Longrightarrow>
   hint_transitions state ts critiques =
   Inr (critiques @ map (\<lambda>t. criticality_notice state (t_event t))
          (filter (\<lambda>t. contains ''critical'' (lower (the (t_comment t)))) ts))"
  by (induction ts arbitrary: critiques) auto

lemma hint_states_with_comments:
  "list_all (\<lambda>(state, data). s_comment data \<noteq> None \<and>
                list_all (\<lambda>t. t_comment t \<noteq> None) (transitions data)) sts \<Longrightarrow>
   hint_states sts critiques =
   Inr (critiques @ concat (map (\<lambda>(state, data).
          (if contains ''v2'' (the (s_comment data)) \<or> contains ''future'' (the (s_comment data))
           then [future_proofing_notice state (the (s_comment data))] else [])
          @ map (\<lambda>t. criticality_notice state (t_event t))
              (filter (\<lambda>t. contains ''critical'' (lower (the (t_comment t))))
                 (transitions data))) sts))"
proof (induction sts arbitrary: critiques)
  case Nil
  then show ?case by simp
next
  case (Cons x sts)
  obtain state data where x: "x = (state, data)" by (cases x)
  obtain comment where c: "s_comment data = Some comment"
    using Cons.prems x by auto
  have ts: "list_all (\<lambda>t. t_comment t \<noteq> None) (transitions data)"
    using Cons.prems x by simp
  have rest: "list_all (\<lambda>(state, data). s_comment data \<noteq> None \<and>
                list_all (\<lambda>t. t_comment t \<noteq> None) (transitions data)) sts"
    using Cons.prems by simp
  show ?case
    unfolding x
    by (simp add: c hint_transitions_with_comments [OF ts] Cons.IH [OF rest])
qed

lemma hint_states_without_comment:
  "(state, data) \<in> set sts \<Longrightarrow> s_comment data = None \<Longrightarrow>
   \<exists>e. hint_states sts critiques = Inl e"
proof (induction sts arbitrary: critiques)
  case Nil
  then show ?case by simp
next
  case (Cons x sts)
  obtain s r where x: "x = (s, r)" by (cases x)
  show ?case
  proof (cases "s_comment r")
    case None
    then show ?thesis by (simp add: x)
  next
    case (Some comment)
    then have mem: "(state, data) \<in> set sts" using Cons.prems x by auto
    show ?thesis
    proof (cases "hint_transitions s (transitions r)
                    (if contains ''v2'' comment \<or> contains ''future'' comment
                     then critiques @ [future_proofing_notice s comment] else critiques)")
      case (Inl e)
      then show ?thesis using Some by (simp add: x)
    next
      case (Inr critiques')
      then show ?thesis
        using Some Cons.IH [OF mem Cons.prems(2), of critiques'] by (simp add: x)
    qed
  qed
qed


section \<open>The claims\<close>

text \<open>
  Claim C1: for every input text the parser completes without raising, and a line that
  matches nothing has no effect. The code raises: a line of the GLOBAL_TRANSITIONS
  section that matches the pattern without a \<^verbatim>\<open>DO(...)\<close> clause makes
  \<^verbatim>\<open>data.get('actions', '')\<close> return \<^verbatim>\<open>None\<close>, and \<^verbatim>\<open>None.split\<close> is an AttributeError that
  \<^verbatim>\<open>parse\<close> lets through.
\<close>

theorem parse_raises_on_global_transition_without_do:
  "parse_text (''GLOBAL_TRANSITIONS:'' @ newline @ ''ON_EVENT(RESET): -> TO(IDLE)'')
     get_initial_structure = Inl AttributeError"
  by code_simp

text \<open>
  Claim C2: a TRANSITIONS line without an \<^verbatim>\<open>IF(...)\<close> clause, after a \<^verbatim>\<open>FROM\<close> that names a
  declared state, appends a transition whose condition is the string \<^verbatim>\<open>True\<close>. The code
  raises instead: \<^verbatim>\<open>data.get('condition', 'True')\<close> is \<^verbatim>\<open>None\<close> for a group that took no
  part, and \<^verbatim>\<open>None.strip\<close> is an AttributeError.
\<close>

theorem parse_raises_on_transition_without_if:
  "parse_text (''STATE_LIST:'' @ newline @ ''A'' @ newline @ ''B'' @ newline @
               ''TRANSITIONS:'' @ newline @ ''FROM(A):'' @ newline @ ''ON_EVENT(E): -> TO(B)'')
     get_initial_structure = Inl AttributeError"
  by code_simp

text \<open>
  Claim C3: the actions of a global transition are the entries of the \<^verbatim>\<open>DO(...)\<close> clause
  split at the commas, each trimmed and in upper case, the empty ones dropped, and the
  empty list without a \<^verbatim>\<open>DO(...)\<close> clause. The code trims the entries and drops the empty
  ones, but only the event and the target go through \<^verbatim>\<open>upper\<close>: the actions keep their
  case. Without the clause the code raises, as under claim C1.
\<close>

theorem global_actions_keep_their_case:
  "parse_text (''GLOBAL_TRANSITIONS:'' @ newline @ ''ON_EVENT(E): DO(stop) -> TO(X)'')
     get_initial_structure =
     Inr \<lparr>header = [], assumptions = [],
          global_transitions = [\<lparr>g_event = ''E'', g_actions = [''stop''], g_target = ''X'',
                                  g_comment = None\<rparr>],
          states = []\<rparr> \<and>
   [''stop''] \<noteq> map upper [''stop''] \<and>
   parse_text (''GLOBAL_TRANSITIONS:'' @ newline @ ''ON_EVENT(E): -> TO(X)'')
     get_initial_structure = Inl AttributeError"
  by code_simp

text \<open>
  Claim C3 as amended: for a line of the GLOBAL_TRANSITIONS section that matches the
  pattern with its \<^verbatim>\<open>DO(...)\<close> clause, the actions are the contents of the clause split at
  the commas, each field trimmed with its case kept, the empty ones dropped.
\<close>

theorem global_actions_are_trimmed_fields:
  assumes "re_search global_pattern line = Some (event, Some a, target)"
  shows "\<exists>pre d post fields.
           line = pre @ d @ a @ '')'' @ post \<and> lower d = ''do('' \<and>
           a = join '','' fields \<and> list_all (\<lambda>f. CHR '','' \<notin> set f) fields \<and>
           parse_global_transition line p =
             Inr (p\<lparr>sm := (sm p)\<lparr>global_transitions := global_transitions (sm p) @
                    [\<lparr>g_event = upper event,
                      g_actions = filter (\<lambda>x. x \<noteq> []) (map strip fields),
                      g_target = upper target,
                      g_comment = extract_comment line\<rparr>]\<rparr>\<rparr>)"
proof -
  from search_global_pattern_do_clause [OF assms] obtain pre d post
    where l: "line = pre @ d @ a @ '')'' @ post" and ld: "lower d = ''do(''"
    by blast
  let ?fields = "split_on CHR '','' a"
  have j: "a = join '','' ?fields"
    using join_split_on [of "CHR '',''" a] by simp
  have n: "list_all (\<lambda>f. CHR '','' \<notin> set f) ?fields"
    by (rule split_on_no_sep)
  have run: "parse_global_transition line p =
             Inr (p\<lparr>sm := (sm p)\<lparr>global_transitions := global_transitions (sm p) @
                    [\<lparr>g_event = upper event,
                      g_actions = filter (\<lambda>x. x \<noteq> []) (map strip ?fields),
                      g_target = upper target,
                      g_comment = extract_comment line\<rparr>]\<rparr>\<rparr>)"
    using assms by (simp add: parse_global_transition_def parse_actions_eq)
  show ?thesis
  proof (intro exI conjI)
    show "line = pre @ d @ a @ '')'' @ post" by (rule l)
    show "lower d = ''do(''" by (rule ld)
    show "a = join '','' ?fields" by (rule j)
    show "list_all (\<lambda>f. CHR '','' \<notin> set f) ?fields" by (rule n)
    show "parse_global_transition line p =
             Inr (p\<lparr>sm := (sm p)\<lparr>global_transitions := global_transitions (sm p) @
                    [\<lparr>g_event = upper event,
                      g_actions = filter (\<lambda>x. x \<noteq> []) (map strip ?fields),
                      g_target = upper target,
                      g_comment = extract_comment line\<rparr>]\<rparr>\<rparr>)"
      by (rule run)
  qed
qed

theorem global_actions_are_trimmed_fields_witness:
  "re_search global_pattern ''ON_EVENT(reset): DO(stop, Clear ,) -> TO(idle) # note'' =
     Some (''reset'', Some ''stop, Clear ,'', ''idle'') \<and>
   (\<exists>pre d post fields.
      ''ON_EVENT(reset): DO(stop, Clear ,) -> TO(idle) # note'' =
        pre @ d @ ''stop, Clear ,'' @ '')'' @ post \<and> lower d = ''do('' \<and>
      ''stop, Clear ,'' = join '','' fields \<and> list_all (\<lambda>f. CHR '','' \<notin> set f) fields \<and>
      parse_global_transition ''ON_EVENT(reset): DO(stop, Clear ,) -> TO(idle) # note''
          global_parser =
        Inr (global_parser\<lparr>sm := (sm global_parser)\<lparr>global_transitions :=
               global_transitions (sm global_parser) @
               [\<lparr>g_event = upper ''reset'',
                 g_actions = filter (\<lambda>x. x \<noteq> []) (map strip fields),
                 g_target = upper ''idle'',
                 g_comment = extract_comment
                   ''ON_EVENT(reset): DO(stop, Clear ,) -> TO(idle) # note''\<rparr>]\<rparr>\<rparr>)) \<and>
   map_sum id (\<lambda>p. global_transitions (sm p))
     (parse_global_transition ''ON_EVENT(reset): DO(stop, Clear ,) -> TO(idle) # note''
        global_parser) =
     Inr [\<lparr>g_event = ''RESET'', g_actions = [''stop'', ''Clear''], g_target = ''IDLE'',
           g_comment = Some ''note''\<rparr>]"
proof -
  have h: "re_search global_pattern ''ON_EVENT(reset): DO(stop, Clear ,) -> TO(idle) # note'' =
     Some (''reset'', Some ''stop, Clear ,'', ''idle'')"
    by code_simp
  have ev: "map_sum id (\<lambda>p. global_transitions (sm p))
     (parse_global_transition ''ON_EVENT(reset): DO(stop, Clear ,) -> TO(idle) # note''
        global_parser) =
     Inr [\<lparr>g_event = ''RESET'', g_actions = [''stop'', ''Clear''], g_target = ''IDLE'',
           g_comment = Some ''note''\<rparr>]"
    by code_simp
  show ?thesis
    using global_actions_are_trimmed_fields [OF h, of global_parser] h ev
    by (intro conjI) assumption+
qed

text \<open>
  Claim C4: when a STATE_LIST line declares a name that the states already hold, the
  record under that name is replaced, whatever the old record held. Its outputs are read
  from the new line: the clause is the text between \<^verbatim>\<open>[Output:\<close>, which follows the name,
  and the next closing bracket (empty when the line has no such clause), its fields are
  the parts between commas, each field with exactly one \<^verbatim>\<open>=\<close> gives a pair of trimmed
  key and trimmed value, and the outputs hold each key once, in the order of first
  occurrence, with the value of its last pair. Its comment is the trimmed text behind
  the first \<^verbatim>\<open>#\<close> of the new line, or \<^verbatim>\<open>None\<close> when the line has none. Its list of
  transitions is empty. The name keeps its place among the keys, and nothing else in
  the document changes.
\<close>

theorem redeclared_state_is_replaced:
  assumes "list_ex is_word line"
    and "name = upper (takeWhile is_word (dropWhile (\<lambda>c. \<not> is_word c) line))"
    and "map_of (states (sm p)) name = Some old"
  shows "\<exists>outs cmt rest body clause fields pairs.
           (\<forall>q. map_of (states (sm (parse_state_list_item line q))) name =
                  Some \<lparr>outputs = outs, s_comment = cmt, transitions = []\<rparr>) \<and>
           rest = dropWhile is_space (dropWhile is_word (dropWhile (\<lambda>c. \<not> is_word c) line)) \<and>
           body = dropWhile is_space (drop 8 rest) \<and>
           clause = (if lower (take 8 rest) = ''[output:'' \<and> CHR '']'' \<in> set body \<and>
                        CHR 0x0A \<notin> set (takeWhile (\<lambda>c. c \<noteq> CHR '']'') body)
                     then takeWhile (\<lambda>c. c \<noteq> CHR '']'') body else []) \<and>
           clause = join '','' fields \<and> list_all (\<lambda>f. CHR '','' \<notin> set f) fields \<and>
           pairs = map (\<lambda>f. (strip (takeWhile (\<lambda>c. c \<noteq> CHR ''='') f),
                              strip (tl (dropWhile (\<lambda>c. c \<noteq> CHR ''='') f))))
                     (filter (\<lambda>f. count_list f CHR ''='' = 1) fields) \<and>
           distinct (map fst outs) \<and>
           map fst outs = rev (remdups (rev (map fst pairs))) \<and>
           map_of outs = map_of (rev pairs) \<and>
           (if CHR ''#'' \<in> set line
            then \<exists>pre post. line = pre @ ''#'' @ post \<and> CHR ''#'' \<notin> set pre \<and>
                   cmt = Some (strip post)
            else cmt = None) \<and>
           map fst (states (sm (parse_state_list_item line p))) = map fst (states (sm p)) \<and>
           (\<forall>n. n \<noteq> name \<longrightarrow>
                  map_of (states (sm (parse_state_list_item line p))) n = map_of (states (sm p)) n) \<and>
           header (sm (parse_state_list_item line p)) = header (sm p) \<and>
           assumptions (sm (parse_state_list_item line p)) = assumptions (sm p) \<and>
           global_transitions (sm (parse_state_list_item line p)) = global_transitions (sm p)"
proof -
  define rest where
    "rest = dropWhile is_space (dropWhile is_word (dropWhile (\<lambda>c. \<not> is_word c) line))"
  define body where "body = dropWhile is_space (drop 8 rest)"
  define present where
    "present \<longleftrightarrow> lower (take 8 rest) = ''[output:'' \<and> CHR '']'' \<in> set body \<and>
                 CHR 0x0A \<notin> set (takeWhile (\<lambda>c. c \<noteq> CHR '']'') body)"
  define clause where
    "clause = (if present then takeWhile (\<lambda>c. c \<noteq> CHR '']'') body else [])"
  define fields where "fields = split_on CHR '','' clause"
  define pairs where
    "pairs = map (\<lambda>f. (strip (takeWhile (\<lambda>c. c \<noteq> CHR ''='') f),
                        strip (tl (dropWhile (\<lambda>c. c \<noteq> CHR ''='') f))))
               (filter (\<lambda>f. count_list f CHR ''='' = 1) fields)"
  define outs where "outs = parse_outputs clause"
  have m: "re_search state_pattern line =
      Some (takeWhile is_word (dropWhile (\<lambda>c. \<not> is_word c) line),
            if present then Some (takeWhile (\<lambda>c. c \<noteq> CHR '']'') body) else None)"
    unfolding present_def body_def rest_def by (rule search_state_pattern_eq [OF assms(1)])
  have empty: "parse_outputs [] = []" by (simp add: parse_outputs_def)
  have o: "(case (if present then Some (takeWhile (\<lambda>c. c \<noteq> CHR '']'') body) else None) of
              None \<Rightarrow> []
            | Some os \<Rightarrow> if os = [] then [] else parse_outputs os) = outs"
    unfolding outs_def clause_def using empty by simp
  have item: "parse_state_list_item line q =
      q\<lparr>sm := (sm q)\<lparr>states := AList.update name
             \<lparr>outputs = outs, s_comment = extract_comment line, transitions = []\<rparr>
             (states (sm q))\<rparr>\<rparr>" for q
    unfolding parse_state_list_item_def m using o assms(2) by (simp add: Let_def)
  have key: "name \<in> set (map fst (states (sm p)))"
    using assms(3) by (metis map_of_eq_None_iff option.distinct(1) set_map)
  have a: "\<forall>q. map_of (states (sm (parse_state_list_item line q))) name =
                  Some \<lparr>outputs = outs, s_comment = extract_comment line, transitions = []\<rparr>"
    by (simp add: item update_conv')
  have b: "map fst (states (sm (parse_state_list_item line p))) = map fst (states (sm p))"
    using key by (simp add: item update_keys)
  have c: "\<forall>n. n \<noteq> name \<longrightarrow>
                  map_of (states (sm (parse_state_list_item line p))) n = map_of (states (sm p)) n"
    by (simp add: item update_conv')
  have d1: "header (sm (parse_state_list_item line p)) = header (sm p)"
    by (simp add: item)
  have d2: "assumptions (sm (parse_state_list_item line p)) = assumptions (sm p)"
    by (simp add: item)
  have d3: "global_transitions (sm (parse_state_list_item line p)) = global_transitions (sm p)"
    by (simp add: item)
  have j: "clause = join '','' fields"
    unfolding fields_def using join_split_on [of "CHR '',''" clause] by simp
  have n: "list_all (\<lambda>f. CHR '','' \<notin> set f) fields"
    unfolding fields_def by (rule split_on_no_sep)
  have oe: "outs = fold (\<lambda>(k, v) d. AList.update k v d) pairs []"
    unfolding outs_def pairs_def fields_def by (rule parse_outputs_eq)
  have o1: "distinct (map fst outs)"
    and o2: "map fst outs = rev (remdups (rev (map fst pairs)))"
    and o3: "map_of outs = map_of (rev pairs)"
    unfolding oe using fold_update_dict [of pairs] by simp_all
  have cm: "if CHR ''#'' \<in> set line
            then \<exists>pre post. line = pre @ ''#'' @ post \<and> CHR ''#'' \<notin> set pre \<and>
                   extract_comment line = Some (strip post)
            else extract_comment line = None"
    by (rule extract_comment_text)
  have cl: "clause = (if lower (take 8 rest) = ''[output:'' \<and> CHR '']'' \<in> set body \<and>
                        CHR 0x0A \<notin> set (takeWhile (\<lambda>c. c \<noteq> CHR '']'') body)
                     then takeWhile (\<lambda>c. c \<noteq> CHR '']'') body else [])"
    unfolding clause_def present_def by (rule refl)
  show ?thesis
  proof (intro exI conjI)
    show "\<forall>q. map_of (states (sm (parse_state_list_item line q))) name =
                  Some \<lparr>outputs = outs, s_comment = extract_comment line, transitions = []\<rparr>"
      by (rule a)
    show "rest = dropWhile is_space (dropWhile is_word (dropWhile (\<lambda>c. \<not> is_word c) line))"
      by (rule rest_def)
    show "body = dropWhile is_space (drop 8 rest)" by (rule body_def)
    show "clause = (if lower (take 8 rest) = ''[output:'' \<and> CHR '']'' \<in> set body \<and>
                        CHR 0x0A \<notin> set (takeWhile (\<lambda>c. c \<noteq> CHR '']'') body)
                     then takeWhile (\<lambda>c. c \<noteq> CHR '']'') body else [])"
      by (rule cl)
    show "clause = join '','' fields" by (rule j)
    show "list_all (\<lambda>f. CHR '','' \<notin> set f) fields" by (rule n)
    show "pairs = map (\<lambda>f. (strip (takeWhile (\<lambda>c. c \<noteq> CHR ''='') f),
                              strip (tl (dropWhile (\<lambda>c. c \<noteq> CHR ''='') f))))
                     (filter (\<lambda>f. count_list f CHR ''='' = 1) fields)"
      by (rule pairs_def)
    show "distinct (map fst outs)" by (rule o1)
    show "map fst outs = rev (remdups (rev (map fst pairs)))" by (rule o2)
    show "map_of outs = map_of (rev pairs)" by (rule o3)
    show "if CHR ''#'' \<in> set line
            then \<exists>pre post. line = pre @ ''#'' @ post \<and> CHR ''#'' \<notin> set pre \<and>
                   extract_comment line = Some (strip post)
            else extract_comment line = None"
      by (rule cm)
    show "map fst (states (sm (parse_state_list_item line p))) = map fst (states (sm p))"
      by (rule b)
    show "\<forall>n. n \<noteq> name \<longrightarrow>
                  map_of (states (sm (parse_state_list_item line p))) n = map_of (states (sm p)) n"
      by (rule c)
    show "header (sm (parse_state_list_item line p)) = header (sm p)" by (rule d1)
    show "assumptions (sm (parse_state_list_item line p)) = assumptions (sm p)" by (rule d2)
    show "global_transitions (sm (parse_state_list_item line p)) = global_transitions (sm p)"
      by (rule d3)
  qed
qed

theorem redeclared_state_is_replaced_witness:
  "list_ex is_word ''a [output: X = 1 , y=2,z, X=3] # new note'' \<and>
   ''A'' = upper (takeWhile is_word (dropWhile (\<lambda>c. \<not> is_word c)
              ''a [output: X = 1 , y=2,z, X=3] # new note'')) \<and>
   map_of (states (sm door_parser)) ''A'' =
     Some \<lparr>outputs = [], s_comment = None,
           transitions = [\<lparr>t_event = ''E'', t_condition = ''x'', t_target = ''B'',
                            t_comment = None\<rparr>]\<rparr> \<and>
   states (sm (parse_state_list_item ''a [output: X = 1 , y=2,z, X=3] # new note'' door_parser)) =
     [(''A'', \<lparr>outputs = [(''X'', ''3''), (''y'', ''2'')], s_comment = Some ''new note'',
              transitions = []\<rparr>)] \<and>
   (\<exists>outs cmt pairs.
      (\<forall>q. map_of (states (sm (parse_state_list_item
                ''a [output: X = 1 , y=2,z, X=3] # new note'' q))) ''A'' =
             Some \<lparr>outputs = outs, s_comment = cmt, transitions = []\<rparr>) \<and>
      distinct (map fst outs) \<and>
      map fst outs = rev (remdups (rev (map fst pairs))) \<and>
      map_of outs = map_of (rev pairs) \<and>
      map fst (states (sm (parse_state_list_item
                ''a [output: X = 1 , y=2,z, X=3] # new note'' door_parser))) =
        map fst (states (sm door_parser)))"
proof -
  have h1: "list_ex is_word ''a [output: X = 1 , y=2,z, X=3] # new note''" by code_simp
  have h2: "''A'' = upper (takeWhile is_word (dropWhile (\<lambda>c. \<not> is_word c)
              ''a [output: X = 1 , y=2,z, X=3] # new note''))"
    by code_simp
  have h3: "map_of (states (sm door_parser)) ''A'' =
     Some \<lparr>outputs = [], s_comment = None,
           transitions = [\<lparr>t_event = ''E'', t_condition = ''x'', t_target = ''B'',
                            t_comment = None\<rparr>]\<rparr>"
    by (simp add: door_parser_def)
  have ev: "states (sm (parse_state_list_item
                ''a [output: X = 1 , y=2,z, X=3] # new note'' door_parser)) =
     [(''A'', \<lparr>outputs = [(''X'', ''3''), (''y'', ''2'')], s_comment = Some ''new note'',
              transitions = []\<rparr>)]"
    by code_simp
  have "\<exists>outs cmt pairs.
      (\<forall>q. map_of (states (sm (parse_state_list_item
                ''a [output: X = 1 , y=2,z, X=3] # new note'' q))) ''A'' =
             Some \<lparr>outputs = outs, s_comment = cmt, transitions = []\<rparr>) \<and>
      distinct (map fst outs) \<and>
      map fst outs = rev (remdups (rev (map fst pairs))) \<and>
      map_of outs = map_of (rev pairs) \<and>
      map fst (states (sm (parse_state_list_item
                ''a [output: X = 1 , y=2,z, X=3] # new note'' door_parser))) =
        map fst (states (sm door_parser))"
    using redeclared_state_is_replaced [OF h1 h2 h3]
    apply (elim exE conjE)
    apply (intro exI conjI)
        apply assumption+
    done
  with h1 h2 h3 ev show ?thesis by (intro conjI) assumption+
qed

text \<open>
  Claim C5: a TRANSITIONS line that matches the pattern is appended only when the
  active source state is a key of the states, and is otherwise dropped silently with the
  document unchanged. With the source state named by \<^verbatim>\<open>FROM\<close> but never declared, a line
  without an \<^verbatim>\<open>IF(...)\<close> clause is not dropped: the transition is built before the
  test on the source state, and building it raises.
\<close>

theorem parse_raises_on_undeclared_source_state:
  "parse_text (''TRANSITIONS:'' @ newline @ ''FROM(A):'' @ newline @ ''ON_EVENT(E): -> TO(B)'')
     get_initial_structure = Inl AttributeError"
  by code_simp

text \<open>
  Claim C6: the deadlock check appends one notice for each declared state that has no
  transitions and is the target of a global transition or of some state's transition,
  and none for any other state; in particular none for a state without transitions
  that is never a target. The check iterates over a set: the notices come in the order
  \<open>iter\<close> lists it, and the count of each notice does not depend on that order.
\<close>

theorem deadlock_check:
  assumes "set (iter (get_all_defined_states d)) = get_all_defined_states d"
    and "distinct (iter (get_all_defined_states d))"
  shows "\<exists>new. find_deadlocks iter d critiques = Inr (critiques @ new) \<and>
           set new \<subseteq> range potential_deadlock \<and>
           (\<forall>s. count_list new (potential_deadlock s) =
                  (if (\<exists>r. map_of (states d) s = Some r \<and> transitions r = []) \<and>
                      (s \<in> g_target ` set (global_transitions d) \<or>
                       s \<in> (\<Union>r \<in> snd ` set (states d). t_target ` set (transitions r)))
                   then 1 else 0))"
proof -
  let ?xs = "iter (get_all_defined_states d)"
  let ?P = "\<lambda>s. \<exists>r. map_of (states d) s = Some r \<and> transitions r = [] \<and>
                   (is_global_target d s \<or> is_regular_target d s)"
  let ?new = "map potential_deadlock (filter ?P ?xs)"
  have keys: "set ?xs = fst ` set (states d)"
    using assms(1) by (simp add: get_all_defined_states_def)
  have run: "find_deadlocks iter d critiques = Inr (critiques @ ?new)"
    unfolding find_deadlocks_def using keys by (intro find_deadlocks_loop_eq) simp
  have rng: "set ?new \<subseteq> range potential_deadlock" by auto
  have cnt: "count_list ?new (potential_deadlock s) =
               (if s \<in> set ?xs \<and> ?P s then 1 else 0)" for s
    using assms(2) potential_deadlock_inj by (rule count_list_map_filter)
  have dom: "map_of (states d) s = Some r \<Longrightarrow> s \<in> set ?xs" for s r
    unfolding keys by (metis domI dom_map_of_conv_image_fst)
  have cond: "(s \<in> set ?xs \<and> ?P s) \<longleftrightarrow>
          ((\<exists>r. map_of (states d) s = Some r \<and> transitions r = []) \<and>
              (s \<in> g_target ` set (global_transitions d) \<or>
               s \<in> (\<Union>r \<in> snd ` set (states d). t_target ` set (transitions r))))" for s
    using dom [of s] unfolding is_global_target_iff is_regular_target_iff by blast
  have "count_list ?new (potential_deadlock s) =
          (if (\<exists>r. map_of (states d) s = Some r \<and> transitions r = []) \<and>
              (s \<in> g_target ` set (global_transitions d) \<or>
               s \<in> (\<Union>r \<in> snd ` set (states d). t_target ` set (transitions r)))
           then 1 else 0)" for s
    using cnt [of s] by (simp only: cond)
  then show ?thesis using run rng by blast
qed

theorem deadlock_check_witness:
  "set ((\<lambda>_. [''B'', ''A'']) (get_all_defined_states reachable_terminal)) =
     get_all_defined_states reachable_terminal \<and>
   distinct ((\<lambda>_. [''B'', ''A'']) (get_all_defined_states reachable_terminal)) \<and>
   find_deadlocks (\<lambda>_. [''B'', ''A'']) reachable_terminal [] =
     Inr [potential_deadlock ''B''] \<and>
   (\<exists>new. find_deadlocks (\<lambda>_. [''B'', ''A'']) reachable_terminal [] = Inr ([] @ new) \<and>
      set new \<subseteq> range potential_deadlock \<and>
      (\<forall>s. count_list new (potential_deadlock s) =
             (if (\<exists>r. map_of (states reachable_terminal) s = Some r \<and> transitions r = []) \<and>
                 (s \<in> g_target ` set (global_transitions reachable_terminal) \<or>
                  s \<in> (\<Union>r \<in> snd ` set (states reachable_terminal).
                          t_target ` set (transitions r)))
              then 1 else 0)))"
proof -
  have h1: "set ((\<lambda>_. [''B'', ''A'']) (get_all_defined_states reachable_terminal)) =
     get_all_defined_states reachable_terminal"
    by (auto simp: get_all_defined_states_def reachable_terminal_def)
  have h2: "distinct ((\<lambda>_. [''B'', ''A'']) (get_all_defined_states reachable_terminal))"
    by simp
  have ev: "find_deadlocks (\<lambda>_. [''B'', ''A'']) reachable_terminal [] =
     Inr [potential_deadlock ''B'']"
    by (simp add: find_deadlocks_def reachable_terminal_def is_global_target_def
        is_regular_target_def)
  show ?thesis
    using deadlock_check [OF h1 h2, of "[]"] h1 h2 ev by (intro conjI) assumption+
qed

text \<open>
  Claim C7: the undefined-state check takes the targets of all transitions, global and
  per state, minus the declared names, and appends a single message exactly when that
  set is not empty. The message is the fixed opening, then the members of the set, each
  once, joined by a comma and a space, then the fixed ending.
\<close>

theorem undefined_state_check:
  assumes "set (iter (get_all_target_states d - get_all_defined_states d)) =
           get_all_target_states d - get_all_defined_states d"
    and "distinct (iter (get_all_target_states d - get_all_defined_states d))"
  shows "get_all_target_states d =
           g_target ` set (global_transitions d) \<union>
           (\<Union>r \<in> snd ` set (states d). t_target ` set (transitions r)) \<and>
         get_all_defined_states d = fst ` set (states d) \<and>
         (if get_all_target_states d - get_all_defined_states d = {}
          then check_undefined_states iter d critiques = critiques
          else \<exists>names. set names = get_all_target_states d - get_all_defined_states d \<and>
                 distinct names \<and>
                 check_undefined_states iter d critiques =
                   critiques @
                   [''Undefined State Error: The following states are used in transitions but not defined in STATE_LIST: ''
                    @ join '', '' names @ ''. Please define them.''])"
proof -
  let ?U = "get_all_target_states d - get_all_defined_states d"
  have ne: "?U \<noteq> {} \<Longrightarrow>
        check_undefined_states iter d critiques = critiques @ [undefined_state_error (iter ?U)]"
    unfolding check_undefined_states_def Let_def by (rule if_P)
  have e: "?U = {} \<Longrightarrow> check_undefined_states iter d critiques = critiques"
    unfolding check_undefined_states_def Let_def by simp
  have "if ?U = {}
          then check_undefined_states iter d critiques = critiques
          else \<exists>names. set names = ?U \<and> distinct names \<and>
                 check_undefined_states iter d critiques =
                   critiques @
                   [''Undefined State Error: The following states are used in transitions but not defined in STATE_LIST: ''
                    @ join '', '' names @ ''. Please define them.'']"
  proof (cases "?U = {}")
    case True
    then show ?thesis using e by simp
  next
    case False
    then have "check_undefined_states iter d critiques =
                   critiques @ [undefined_state_error (iter ?U)]"
      by (rule ne)
    then have "set (iter ?U) = ?U \<and> distinct (iter ?U) \<and>
                 check_undefined_states iter d critiques =
                   critiques @
                   [''Undefined State Error: The following states are used in transitions but not defined in STATE_LIST: ''
                    @ join '', '' (iter ?U) @ ''. Please define them.'']"
      using assms unfolding undefined_state_error_def by simp
    then have "\<exists>names. set names = ?U \<and> distinct names \<and>
                 check_undefined_states iter d critiques =
                   critiques @
                   [''Undefined State Error: The following states are used in transitions but not defined in STATE_LIST: ''
                    @ join '', '' names @ ''. Please define them.'']"
      by (rule exI [where x = "iter (get_all_target_states d - get_all_defined_states d)"])
    then show ?thesis using False by (simp only: if_False)
  qed
  then show ?thesis
    using get_all_target_states_eq [of d] get_all_defined_states_eq [of d] by (intro conjI)
qed

theorem undefined_state_check_witness:
  "get_all_target_states two_undefined_targets =
     {''A'', ''B'', ''C''} \<and>
   get_all_defined_states two_undefined_targets = {''A''} \<and>
   set ((\<lambda>_. [''B'', ''C'']) (get_all_target_states two_undefined_targets
                          - get_all_defined_states two_undefined_targets)) =
     get_all_target_states two_undefined_targets - get_all_defined_states two_undefined_targets \<and>
   distinct ((\<lambda>_. [''B'', ''C'']) (get_all_target_states two_undefined_targets
                          - get_all_defined_states two_undefined_targets)) \<and>
   (\<exists>names. set names = {''B'', ''C''} \<and> distinct names \<and>
      check_undefined_states (\<lambda>_. [''B'', ''C'']) two_undefined_targets [] =
        [''Undefined State Error: The following states are used in transitions but not defined in STATE_LIST: ''
         @ join '', '' names @ ''. Please define them.'']) \<and>
   check_undefined_states (\<lambda>_. [''B'', ''C'']) two_undefined_targets [] =
     [''Undefined State Error: The following states are used in transitions but not defined in STATE_LIST: B, C. Please define them.'']"
proof -
  have t: "get_all_target_states two_undefined_targets = {''A'', ''B'', ''C''}"
    by (auto simp: get_all_target_states_eq two_undefined_targets_def)
  have df: "get_all_defined_states two_undefined_targets = {''A''}"
    by (simp add: get_all_defined_states_eq two_undefined_targets_def)
  have u: "get_all_target_states two_undefined_targets
           - get_all_defined_states two_undefined_targets = {''B'', ''C''}"
    unfolding t df by auto
  have h1: "set ((\<lambda>_. [''B'', ''C'']) (get_all_target_states two_undefined_targets
                          - get_all_defined_states two_undefined_targets)) =
     get_all_target_states two_undefined_targets - get_all_defined_states two_undefined_targets"
    unfolding u by simp
  have h2: "distinct ((\<lambda>_. [''B'', ''C'']) (get_all_target_states two_undefined_targets
                          - get_all_defined_states two_undefined_targets))"
    by simp
  have ev: "check_undefined_states (\<lambda>_. [''B'', ''C'']) two_undefined_targets [] =
     [''Undefined State Error: The following states are used in transitions but not defined in STATE_LIST: B, C. Please define them.'']"
    unfolding check_undefined_states_def Let_def u
    by (simp add: undefined_state_error_def)
  from undefined_state_check [OF h1 h2, of "[]"]
  have "\<exists>names. set names = {''B'', ''C''} \<and> distinct names \<and>
      check_undefined_states (\<lambda>_. [''B'', ''C'']) two_undefined_targets [] =
        [''Undefined State Error: The following states are used in transitions but not defined in STATE_LIST: ''
         @ join '', '' names @ ''. Please define them.'']"
    unfolding u by simp
  with t df h1 h2 ev show ?thesis by (intro conjI) assumption+
qed

text \<open>
  Claim C8: the comment check gives one notice per state whose comment mentions
  \<^verbatim>\<open>v2\<close> or \<^verbatim>\<open>future\<close> and one per transition whose comment mentions \<^verbatim>\<open>critical\<close>, and
  states and transitions with no comment at all give none. A state declared without a
  comment holds \<^verbatim>\<open>None\<close> under its key \<^verbatim>\<open>comment\<close>, so \<^verbatim>\<open>data.get('comment', '')\<close> is \<^verbatim>\<open>None\<close>
  and \<^verbatim>\<open>'v2' in None\<close> is a TypeError: the check raises on the document that the one
  line \<^verbatim>\<open>A\<close> of a STATE_LIST section leaves.
\<close>

theorem comment_hints_raise_on_state_without_comment:
  "parse_text (''STATE_LIST:'' @ newline @ ''A'') get_initial_structure =
     Inr \<lparr>header = [], assumptions = [], global_transitions = [],
          states = [(''A'', \<lparr>outputs = [], s_comment = None, transitions = []\<rparr>)]\<rparr> \<and>
   check_comment_hints
     \<lparr>header = [], assumptions = [], global_transitions = [],
      states = [(''A'', \<lparr>outputs = [], s_comment = None, transitions = []\<rparr>)]\<rparr> []
     = Inl TypeError"
  by code_simp

text \<open>
  Claim C9: saving a document and loading what was saved gives the document back, field
  for field. The hypotheses say that the keys of the header, of the states and of each
  state's outputs are distinct, which holds of every Python dictionary. Whatever the
  file held before, after \<^verbatim>\<open>save\<close> the value that \<^verbatim>\<open>load\<close> reads is the value of the
  document, and no other document has that value.
\<close>

theorem save_load_round_trip:
  assumes "distinct (map fst (header d))"
    and "distinct (map fst (states d))"
    and "list_all (\<lambda>(n, r). distinct (map fst (outputs r))) (states d)"
  shows "load (save (document_value d) file) = Some (document_value d) \<and>
         (\<forall>d'. document_value d' = document_value d \<longrightarrow> d' = d)"
proof -
  have "unique_keys (document_value d)"
    using assms by (rule unique_keys_document)
  then have "json_loads (json_dumps (document_value d)) = Inr (document_value d)"
    by (rule json_loads_dumps)
  then have "load (save (document_value d) file) = Some (document_value d)"
    by (simp add: load_def save_def)
  then show ?thesis using document_value_inj by blast
qed

theorem save_load_round_trip_witness:
  "distinct (map fst (header door_lock)) \<and>
   distinct (map fst (states door_lock)) \<and>
   list_all (\<lambda>(n, r). distinct (map fst (outputs r))) (states door_lock) \<and>
   load (save (document_value door_lock) None) = Some (document_value door_lock)"
proof -
  have h1: "distinct (map fst (header door_lock))" by (simp add: door_lock_def)
  have h2: "distinct (map fst (states door_lock))" by (simp add: door_lock_def)
  have h3: "list_all (\<lambda>(n, r). distinct (map fst (outputs r))) (states door_lock)"
    by (simp add: door_lock_def)
  show ?thesis
    using save_load_round_trip [OF h1 h2 h3, of None] h1 h2 h3 by blast
qed

text \<open>
  Claim C10: in the STATE_LIST section every line that is not blank, does not start
  with \<^verbatim>\<open>#\<close>, is not a section header and holds a word character declares a state,
  named by the first maximal run of word characters of the line, in upper case; the
  record it stores has the comment of the line and no transitions.
\<close>

theorem state_list_line_declares_state:
  assumes "current_section p = Some ''STATE_LIST''"
    and "strip raw \<noteq> []"
    and "\<not> startswith (strip raw) ''#''"
    and "\<not> is_section_header (strip raw)"
    and "list_ex is_word (strip raw)"
  shows "\<exists>p' outs. parse_line raw p = Inr p' \<and>
           takeWhile is_word (dropWhile (\<lambda>c. \<not> is_word c) (strip raw)) \<noteq> [] \<and>
           map_of (states (sm p'))
             (upper (takeWhile is_word (dropWhile (\<lambda>c. \<not> is_word c) (strip raw)))) =
           Some \<lparr>outputs = outs, s_comment = extract_comment (strip raw), transitions = []\<rparr>"
proof -
  obtain outs where m: "re_search state_pattern (strip raw) =
      Some (takeWhile is_word (dropWhile (\<lambda>c. \<not> is_word c) (strip raw)), outs)"
    using search_state_pattern [OF assms(5)] by blast
  have pl: "parse_line raw p = Inr (parse_state_list_item (strip raw) p)"
    using assms(1-4) by (simp add: parse_line_def parse_line_in_section_def)
  have "\<exists>outs'. map_of (states (sm (parse_state_list_item (strip raw) p)))
             (upper (takeWhile is_word (dropWhile (\<lambda>c. \<not> is_word c) (strip raw)))) =
           Some \<lparr>outputs = outs', s_comment = extract_comment (strip raw), transitions = []\<rparr>"
    using m by (simp add: parse_state_list_item_def update_conv')
  then show ?thesis
    using pl first_word_nonempty [OF assms(5)] by blast
qed


theorem state_list_line_declares_state_witness:
  "current_section state_list_parser = Some ''STATE_LIST'' \<and>
   strip ''My cool state'' \<noteq> [] \<and>
   \<not> startswith (strip ''My cool state'') ''#'' \<and>
   \<not> is_section_header (strip ''My cool state'') \<and>
   list_ex is_word (strip ''My cool state'') \<and>
   (\<exists>p' outs. parse_line ''My cool state'' state_list_parser = Inr p' \<and>
      takeWhile is_word (dropWhile (\<lambda>c. \<not> is_word c) (strip ''My cool state'')) \<noteq> [] \<and>
      map_of (states (sm p'))
        (upper (takeWhile is_word (dropWhile (\<lambda>c. \<not> is_word c) (strip ''My cool state'')))) =
      Some \<lparr>outputs = outs, s_comment = extract_comment (strip ''My cool state''),
            transitions = []\<rparr>) \<and>
   upper (takeWhile is_word (dropWhile (\<lambda>c. \<not> is_word c) (strip ''My cool state''))) = ''MY'' \<and>
   map_sum id (\<lambda>p. states (sm p)) (parse_line ''My cool state'' state_list_parser) =
     Inr [(''MY'', \<lparr>outputs = [], s_comment = None, transitions = []\<rparr>)]"
proof -
  have h1: "current_section state_list_parser = Some ''STATE_LIST''"
    by (simp add: state_list_parser_def)
  have h2: "strip ''My cool state'' \<noteq> []" by code_simp
  have h3: "\<not> startswith (strip ''My cool state'') ''#''" by code_simp
  have h4: "\<not> is_section_header (strip ''My cool state'')" by code_simp
  have h5: "list_ex is_word (strip ''My cool state'')" by code_simp
  have w: "upper (takeWhile is_word (dropWhile (\<lambda>c. \<not> is_word c) (strip ''My cool state''))) = ''MY''"
    by code_simp
  have ev: "map_sum id (\<lambda>p. states (sm p)) (parse_line ''My cool state'' state_list_parser) =
     Inr [(''MY'', \<lparr>outputs = [], s_comment = None, transitions = []\<rparr>)]"
    by code_simp
  show ?thesis
    using state_list_line_declares_state [OF h1 h2 h3 h4 h5] h1 h2 h3 h4 h5 w ev
    by (intro conjI) assumption+
qed

end
